theory Spec2Isabelle
  imports Main "HOL-Library.Word" "HOL-Library.Multiset"
begin

section \<open>Data model of the contract CrowdfundingPlatformV2\<close>

text \<open>
  The contract is the Solidity source \<^verbatim>\<open>src/unnamed/part_008\<close>. An \<^verbatim>\<open>address\<close> is
  a 160-bit word. A \<^verbatim>\<open>uint256\<close> is a natural number; Solidity 0.8 reverts with a panic
  when an addition, subtraction or multiplication leaves the range, and every such
  operation of the source is written out as a check against \<open>MAX_UINT256\<close>.
  A Solidity mapping is total (every key holds the zero value until written), so a
  mapping is a HOL function. Events are not modelled.
\<close>

type_synonym address = "160 word"

definition MAX_UINT256 :: nat where
  "MAX_UINT256 = 2 ^ 256 - 1"

datatype FundingMode = Donation | Debit | Reward | Equity

datatype CampaignStatus = Active | Completed | Expired | UnderVoting | Failed

record Campaign =
  creator :: address
  name :: string
  description :: string
  targetAmount :: nat
  deadline :: nat
  originalDeadline :: nat
  raisedAmount :: nat
  fundsReleased :: bool
  driveLink :: string
  allowedModes :: "FundingMode list"
  backersCount :: nat
  votingDeadline :: nat
  isAllOrNothing :: bool
  votesForAllOrNothing :: nat
  votesForKeepRaised :: nat
  status :: CampaignStatus
  minContribution :: nat
  maxContribution :: nat
  votingEnabled :: bool
  totalVotes :: nat
  requiredVotes :: nat
  votingEndTime :: nat
  currentMode :: FundingMode
  backers :: "address list"

record Contribution =
  amount :: nat
  timestamp :: nat
  refunded :: bool
  mode :: FundingMode

record Vote =
  hasVoted :: bool
  votedForAllOrNothing :: bool

text \<open>
  The storage of the contract. \<open>campaignIds\<close> is the counter \<^verbatim>\<open>_campaignIds\<close>,
  \<open>owner\<close> the owner of \<^verbatim>\<open>Ownable\<close>. Three fields stand for the ether side:
  \<open>balance\<close> is the ether the contract holds, \<open>paid a\<close> the ether the contract has
  transferred to \<open>a\<close> so far, and \<open>rejects a\<close> says that a transfer to \<open>a\<close> fails
  (a recipient contract that refuses ether); no operation changes \<open>rejects\<close>.
\<close>

record State =
  campaignIds :: nat
  campaignCount :: nat
  platformFee :: nat
  owner :: address
  campaigns :: "nat \<Rightarrow> Campaign"
  contributions :: "nat \<Rightarrow> address \<Rightarrow> Contribution list"
  campaignVotes :: "nat \<Rightarrow> address \<Rightarrow> Vote"
  backerFundingModes :: "nat \<Rightarrow> address \<Rightarrow> FundingMode"
  voterHasVoted :: "nat \<Rightarrow> address \<Rightarrow> bool"
  voteWeight :: "nat \<Rightarrow> address \<Rightarrow> nat"
  votes :: "nat \<Rightarrow> address \<Rightarrow> FundingMode"
  balance :: nat
  paid :: "address \<Rightarrow> nat"
  rejects :: "address \<Rightarrow> bool"

datatype error =
    Revert string
  | Panic_overflow
  | Panic_index
  | Transfer_failed

definition VOTING_DURATION :: nat where
  "VOTING_DURATION = 604800"

text \<open>The zero value of a campaign slot that was never written.\<close>

definition zero_campaign :: Campaign where
  "zero_campaign =
     \<lparr> creator = 0, name = [], description = [], targetAmount = 0, deadline = 0,
       originalDeadline = 0, raisedAmount = 0, fundsReleased = False, driveLink = [],
       allowedModes = [], backersCount = 0, votingDeadline = 0, isAllOrNothing = False,
       votesForAllOrNothing = 0, votesForKeepRaised = 0, status = Active,
       minContribution = 0, maxContribution = 0, votingEnabled = False, totalVotes = 0,
       requiredVotes = 0, votingEndTime = 0, currentMode = Donation, backers = [] \<rparr>"

text \<open>
  The state after deployment by \<open>own\<close>: \<^verbatim>\<open>platformFee = 25\<close>, every mapping empty,
  no ether held.
\<close>

definition init_state :: "address \<Rightarrow> (address \<Rightarrow> bool) \<Rightarrow> State" where
  "init_state own rej =
     \<lparr> campaignIds = 0, campaignCount = 0, platformFee = 25, owner = own,
       campaigns = (\<lambda>_. zero_campaign),
       contributions = (\<lambda>_ _. []),
       campaignVotes = (\<lambda>_ _. \<lparr> hasVoted = False, votedForAllOrNothing = False \<rparr>),
       backerFundingModes = (\<lambda>_ _. Donation),
       voterHasVoted = (\<lambda>_ _. False),
       voteWeight = (\<lambda>_ _. 0),
       votes = (\<lambda>_ _. Donation),
       balance = 0, paid = (\<lambda>_. 0), rejects = rej \<rparr>"

section \<open>Operations\<close>

text \<open>Writing one campaign slot, one contribution list.\<close>

definition set_campaign :: "State \<Rightarrow> nat \<Rightarrow> Campaign \<Rightarrow> State" where
  "set_campaign s cid c = s\<lparr> campaigns := (campaigns s)(cid := c) \<rparr>"

definition set_contributions :: "State \<Rightarrow> nat \<Rightarrow> address \<Rightarrow> Contribution list \<Rightarrow> State" where
  "set_contributions s cid a cs =
     s\<lparr> contributions := (contributions s)(cid := (contributions s cid)(a := cs)) \<rparr>"

text \<open>
  \<^verbatim>\<open>payable(to).transfer(amt)\<close>: fails, and with it the whole call, when the contract
  holds less than \<open>amt\<close> or the recipient refuses.
\<close>

definition transfer :: "State \<Rightarrow> address \<Rightarrow> nat \<Rightarrow> error + State" where
  "transfer s to amt =
     (if balance s < amt \<or> rejects s to then Inl Transfer_failed
      else Inr (s\<lparr> balance := balance s - amt, paid := (paid s)(to := paid s to + amt) \<rparr>))"

subsection \<open>createCampaign\<close>

definition createCampaign ::
  "State \<Rightarrow> address \<Rightarrow> nat \<Rightarrow> string \<Rightarrow> string \<Rightarrow> nat \<Rightarrow> nat \<Rightarrow> string \<Rightarrow>
   FundingMode list \<Rightarrow> nat \<Rightarrow> nat \<Rightarrow> error + (State \<times> nat)" where
  "createCampaign s sender now nm descr target dl link modes minC maxC =
     (if \<not> target > 0 then Inl (Revert ''Target amount must be greater than 0'')
      else if \<not> dl > now then Inl (Revert ''Deadline must be in the future'')
      else if \<not> length nm > 0 then Inl (Revert ''Name cannot be empty'')
      else if \<not> length modes > 0 then Inl (Revert ''Must specify at least one funding mode'')
      else if \<not> minC \<le> maxC then Inl (Revert ''Min contribution must be <= max'')
      else if dl + VOTING_DURATION > MAX_UINT256 then Inl Panic_overflow
      else if campaignCount s + 1 > MAX_UINT256 then Inl Panic_overflow
      else
        let campaignId = campaignIds s;
            c = (campaigns s campaignId)
                  \<lparr> creator := sender, name := nm, description := descr,
                    targetAmount := target, deadline := dl, originalDeadline := dl,
                    driveLink := link, allowedModes := modes, status := Active,
                    minContribution := minC, maxContribution := maxC,
                    votingDeadline := dl + VOTING_DURATION \<rparr>;
            s1 = set_campaign s campaignId c
        in Inr (s1\<lparr> campaignIds := (campaignIds s + 1) mod 2 ^ 256,
                   campaignCount := campaignCount s + 1 \<rparr>, campaignId))"

subsection \<open>contribute\<close>

text \<open>
  Modelled from the spec: the source statement
  \<^verbatim>\<open>contributions[campaignId][msg.sender] += msg.value\<close> applies \<^verbatim>\<open>+=\<close> to a
  \<^verbatim>\<open>Contribution[]\<close>, for which the source defines no operator. The spec says
  that contribute "appends a contribution entry" \<open>{amount, timestamp, refunded, mode}\<close>;
  the entry carries the value sent, the block time, \<open>refunded = False\<close>, and, the
  source's contribute taking no mode, the zero mode.
\<close>

definition add_contribution :: "Contribution list \<Rightarrow> nat \<Rightarrow> nat \<Rightarrow> Contribution list" where
  "add_contribution cs v now =
     cs @ [\<lparr> amount = v, timestamp = now, refunded = False, mode = Donation \<rparr>]"

definition contribute :: "State \<Rightarrow> address \<Rightarrow> nat \<Rightarrow> nat \<Rightarrow> nat \<Rightarrow> error + State" where
  "contribute s sender v now campaignId =
     (let c = campaigns s campaignId in
      if status c \<noteq> Active then Inl (Revert ''Campaign is not active'')
      else if \<not> v > 0 then Inl (Revert ''Contribution must be greater than 0'')
      else if \<not> now \<le> deadline c then Inl (Revert ''Campaign has ended'')
      else if raisedAmount c + v > MAX_UINT256 then Inl Panic_overflow
      else if backersCount c + 1 > MAX_UINT256 then Inl Panic_overflow
      else
        let s1 = set_contributions s campaignId sender
                   (add_contribution (contributions s campaignId sender) v now);
            c1 = c\<lparr> raisedAmount := raisedAmount c + v,
                    backersCount := backersCount c + 1,
                    backers := backers c @ [sender] \<rparr>;
            c2 = (if raisedAmount c1 \<ge> targetAmount c1
                  then c1\<lparr> status := Completed, deadline := now \<rparr> else c1)
        in Inr ((set_campaign s1 campaignId c2)\<lparr> balance := balance s + v \<rparr>))"

subsection \<open>startVoting\<close>

definition startVoting :: "State \<Rightarrow> address \<Rightarrow> nat \<Rightarrow> nat \<Rightarrow> error + State" where
  "startVoting s sender now campaignId =
     (let c = campaigns s campaignId in
      if sender \<noteq> creator c then Inl (Revert ''Only creator can start voting'')
      else if votingEnabled c then Inl (Revert ''Voting already started'')
      else if \<not> raisedAmount c \<ge> targetAmount c then Inl (Revert ''Target not reached'')
      else if now + VOTING_DURATION > MAX_UINT256 then Inl Panic_overflow
      else Inr (set_campaign s campaignId
                  (c\<lparr> votingEnabled := True,
                      votingEndTime := now + VOTING_DURATION,
                      requiredVotes := backersCount c div 2 \<rparr>)))"

subsection \<open>getCampaignBackers\<close>

text \<open>
  The loop of \<^verbatim>\<open>getCampaignBackers\<close>: \<open>n\<close> is \<^verbatim>\<open>backersCount\<close>, \<open>bl\<close> the stored
  sequence \<^verbatim>\<open>campaign.backers\<close>, \<open>out\<close> the result array (allocated with \<open>n\<close> zero
  addresses), \<open>i\<close> and \<open>ix\<close> the two counters. Reading \<open>bl\<close> out of range panics.
  The write to \<open>out\<close> is in range in every call from \<^verbatim>\<open>getCampaignBackers\<close>, where
  \<open>ix \<le> i < n\<close> and \<open>out\<close> has length \<open>n\<close>.
\<close>

function backers_loop ::
  "(address \<Rightarrow> bool) \<Rightarrow> address list \<Rightarrow> nat \<Rightarrow> nat \<Rightarrow> nat \<Rightarrow> address list \<Rightarrow>
   error + address list" where
  "backers_loop hasC bl n i ix out =
     (if i < n then
        (if \<not> i < length bl then Inl Panic_index
         else if hasC (bl ! i) then backers_loop hasC bl n (i + 1) (ix + 1) (out[ix := bl ! i])
         else backers_loop hasC bl n (i + 1) ix out)
      else Inr out)"
  by pat_completeness auto
termination
  by (relation "measure (\<lambda>(hasC, bl, n, i, ix, out). n - i)") auto

declare backers_loop.simps [simp del]

definition getCampaignBackers :: "State \<Rightarrow> nat \<Rightarrow> error + address list" where
  "getCampaignBackers s campaignId =
     (let c = campaigns s campaignId in
      backers_loop (\<lambda>b. length (contributions s campaignId b) > 0) (backers c)
        (backersCount c) 0 0 (replicate (backersCount c) 0))"

subsection \<open>endVoting\<close>

fun mode_index :: "FundingMode \<Rightarrow> nat" where
  "mode_index Donation = 0"
| "mode_index Debit = 1"
| "mode_index Reward = 2"
| "mode_index Equity = 3"

text \<open>The conversion \<^verbatim>\<open>FundingMode(i)\<close>, applied by the source to \<open>i < 4\<close> only.\<close>

definition mode_of_index :: "nat \<Rightarrow> FundingMode" where
  "mode_of_index i = (if i = 0 then Donation else if i = 1 then Debit
                      else if i = 2 then Reward else Equity)"

text \<open>
  The first loop of \<^verbatim>\<open>endVoting\<close>: for every entry of the backers array that has
  voted, the entry's recorded weight is added to the tally of the entry's mode.
\<close>

fun tally_loop ::
  "(address \<Rightarrow> bool) \<Rightarrow> (address \<Rightarrow> FundingMode) \<Rightarrow> (address \<Rightarrow> nat) \<Rightarrow>
   address list \<Rightarrow> nat list \<Rightarrow> error + nat list" where
  "tally_loop voted vt wt [] modeVotes = Inr modeVotes"
| "tally_loop voted vt wt (b # bs) modeVotes =
     (if voted b then
        (let modeIndex = mode_index (vt b) in
         if modeVotes ! modeIndex + wt b > MAX_UINT256 then Inl Panic_overflow
         else tally_loop voted vt wt bs
                (modeVotes[modeIndex := modeVotes ! modeIndex + wt b]))
      else tally_loop voted vt wt bs modeVotes)"

text \<open>
  The second loop: \<open>i\<close> runs over the indices still to scan, \<open>maxVotes\<close> and
  \<open>winningMode\<close> are the loop's two variables.
\<close>

fun winner_loop :: "nat list \<Rightarrow> nat list \<Rightarrow> nat \<Rightarrow> FundingMode \<Rightarrow> FundingMode" where
  "winner_loop modeVotes [] maxVotes winningMode = winningMode"
| "winner_loop modeVotes (i # is) maxVotes winningMode =
     (if modeVotes ! i > maxVotes
      then winner_loop modeVotes is (modeVotes ! i) (mode_of_index i)
      else winner_loop modeVotes is maxVotes winningMode)"

definition find_winner :: "nat list \<Rightarrow> FundingMode" where
  "find_winner modeVotes = winner_loop modeVotes [0, 1, 2, 3] 0 Donation"

definition endVoting :: "State \<Rightarrow> nat \<Rightarrow> error + State" where
  "endVoting s campaignId =
     (let c = campaigns s campaignId in
      if \<not> votingEnabled c then Inl (Revert ''Voting not started'')
      else
        case getCampaignBackers s campaignId of
          Inl e \<Rightarrow> Inl e
        | Inr bs \<Rightarrow>
            (case tally_loop (voterHasVoted s campaignId) (votes s campaignId)
                    (voteWeight s campaignId) bs [0, 0, 0, 0] of
               Inl e \<Rightarrow> Inl e
             | Inr modeVotes \<Rightarrow>
                 Inr (set_campaign s campaignId
                        (c\<lparr> currentMode := find_winner modeVotes,
                            votingEnabled := False \<rparr>))))"

subsection \<open>vote\<close>

definition vote :: "State \<Rightarrow> address \<Rightarrow> nat \<Rightarrow> nat \<Rightarrow> FundingMode \<Rightarrow> error + State" where
  "vote s sender now campaignId m =
     (let c = campaigns s campaignId in
      if \<not> votingEnabled c then Inl (Revert ''Voting not started'')
      else if \<not> now \<le> votingEndTime c then Inl (Revert ''Voting ended'')
      else if voterHasVoted s campaignId sender then Inl (Revert ''Already voted'')
      else
        case contributions s campaignId sender of
          [] \<Rightarrow> Inl (Revert ''No contribution found'')
        | first # _ \<Rightarrow>
            (let weight = amount first in
             if totalVotes c + weight > MAX_UINT256 then Inl Panic_overflow
             else
               let s1 = s\<lparr> votes := (votes s)(campaignId := (votes s campaignId)(sender := m)),
                           voteWeight := (voteWeight s)
                              (campaignId := (voteWeight s campaignId)(sender := weight)),
                           voterHasVoted := (voterHasVoted s)
                              (campaignId := (voterHasVoted s campaignId)(sender := True)) \<rparr>;
                   c1 = c\<lparr> totalVotes := totalVotes c + weight \<rparr>;
                   s2 = set_campaign s1 campaignId c1
               in if totalVotes c1 \<ge> requiredVotes c1 then endVoting s2 campaignId
                  else Inr s2))"

subsection \<open>finalizeCampaign\<close>

text \<open>
  The modifier \<^verbatim>\<open>nonReentrant\<close> guards against a call from inside a transfer; the
  model has no such call, so the modifier has no effect here.
\<close>

definition finalizeCampaign :: "State \<Rightarrow> address \<Rightarrow> nat \<Rightarrow> nat \<Rightarrow> error + State" where
  "finalizeCampaign s sender now campaignId =
     (if \<not> campaignId < campaignIds s then Inl (Revert ''Campaign does not exist'')
      else
        let c = campaigns s campaignId in
        if \<not> now > votingDeadline c then Inl (Revert ''Voting period not ended'')
        else if status c \<noteq> UnderVoting then Inl (Revert ''Campaign not in voting state'')
        else if fundsReleased c then Inl (Revert ''Funds already released'')
        else
          let aon = votesForAllOrNothing c > votesForKeepRaised c;
              c1 = c\<lparr> isAllOrNothing := aon \<rparr>
          in if aon \<and> raisedAmount c1 < targetAmount c1
             then Inr (set_campaign s campaignId (c1\<lparr> status := Failed \<rparr>))
             else if raisedAmount c1 * platformFee s > MAX_UINT256 then Inl Panic_overflow
             else
               let fee = (raisedAmount c1 * platformFee s) div 1000 in
               if fee > raisedAmount c1 then Inl Panic_overflow
               else
                 let amt = raisedAmount c1 - fee;
                     s1 = set_campaign s campaignId
                            (c1\<lparr> fundsReleased := True, status := Completed \<rparr>)
                 in case transfer s1 (creator c1) amt of
                      Inl e \<Rightarrow> Inl e
                    | Inr s2 \<Rightarrow> transfer s2 (owner s2) fee)"

subsection \<open>requestRefund\<close>

text \<open>
  The loop of \<^verbatim>\<open>requestRefund\<close> over the caller's entries: returns the entries, each
  one marked refunded, and the sum of the amounts that were not yet refunded.
\<close>

fun refund_loop :: "Contribution list \<Rightarrow> nat \<Rightarrow> error + (Contribution list \<times> nat)" where
  "refund_loop [] refundAmount = Inr ([], refundAmount)"
| "refund_loop (e # es) refundAmount =
     (if \<not> refunded e then
        (if refundAmount + amount e > MAX_UINT256 then Inl Panic_overflow
         else case refund_loop es (refundAmount + amount e) of
                Inl err \<Rightarrow> Inl err
              | Inr (es', r) \<Rightarrow> Inr (e\<lparr> refunded := True \<rparr> # es', r))
      else case refund_loop es refundAmount of
             Inl err \<Rightarrow> Inl err
           | Inr (es', r) \<Rightarrow> Inr (e # es', r))"

definition requestRefund :: "State \<Rightarrow> address \<Rightarrow> nat \<Rightarrow> error + State" where
  "requestRefund s sender campaignId =
     (if \<not> campaignId < campaignIds s then Inl (Revert ''Campaign does not exist'')
      else
        let c = campaigns s campaignId in
        if status c \<noteq> Failed then Inl (Revert ''Refunds not available'')
        else
          case refund_loop (contributions s campaignId sender) 0 of
            Inl e \<Rightarrow> Inl e
          | Inr (userContributions, refundAmount) \<Rightarrow>
              if \<not> refundAmount > 0 then Inl (Revert ''No refund available'')
              else if refundAmount > raisedAmount c then Inl Panic_overflow
              else
                transfer
                  (set_campaign (set_contributions s campaignId sender userContributions)
                     campaignId (c\<lparr> raisedAmount := raisedAmount c - refundAmount \<rparr>))
                  sender refundAmount)"

subsection \<open>updateCampaignStatus\<close>

definition updateCampaignStatus :: "State \<Rightarrow> nat \<Rightarrow> nat \<Rightarrow> error + State" where
  "updateCampaignStatus s now campaignId =
     (if \<not> campaignId < campaignIds s then Inl (Revert ''Campaign does not exist'')
      else
        let c = campaigns s campaignId in
        if status c = Active \<and> now \<ge> deadline c
        then Inr (set_campaign s campaignId (c\<lparr> status := UnderVoting \<rparr>))
        else Inr s)"

subsection \<open>Views\<close>

definition getVote :: "State \<Rightarrow> nat \<Rightarrow> address \<Rightarrow> bool \<times> bool" where
  "getVote s campaignId voter =
     (let voterVote = campaignVotes s campaignId voter
      in (hasVoted voterVote, votedForAllOrNothing voterVote))"

text \<open>The view \<^verbatim>\<open>hasVoted\<close> of the contract (the name is taken by the field of \<open>Vote\<close>).\<close>

definition hasVoted_view :: "State \<Rightarrow> nat \<Rightarrow> address \<Rightarrow> error + bool" where
  "hasVoted_view s campaignId voter =
     (if \<not> campaignId < campaignIds s then Inl (Revert ''Campaign does not exist'')
      else Inr (hasVoted (campaignVotes s campaignId voter)))"

section \<open>Reachable states\<close>

text \<open>
  A state is reachable when a sequence of successful external calls leads to it from
  the deployed contract. \<^verbatim>\<open>endVoting\<close> is internal and runs inside \<^verbatim>\<open>vote\<close> only.
  The last rule is the change of owner that \<^verbatim>\<open>Ownable\<close> offers.
\<close>

inductive reachable :: "State \<Rightarrow> bool" where
  r_init: "reachable (init_state own rej)"
| r_create: "reachable s \<Longrightarrow>
     createCampaign s sender now nm descr target dl link modes minC maxC = Inr (s', cid) \<Longrightarrow>
     reachable s'"
| r_contribute: "reachable s \<Longrightarrow> contribute s sender v now cid = Inr s' \<Longrightarrow> reachable s'"
| r_startVoting: "reachable s \<Longrightarrow> startVoting s sender now cid = Inr s' \<Longrightarrow> reachable s'"
| r_vote: "reachable s \<Longrightarrow> vote s sender now cid m = Inr s' \<Longrightarrow> reachable s'"
| r_finalize: "reachable s \<Longrightarrow> finalizeCampaign s sender now cid = Inr s' \<Longrightarrow> reachable s'"
| r_refund: "reachable s \<Longrightarrow> requestRefund s sender cid = Inr s' \<Longrightarrow> reachable s'"
| r_update: "reachable s \<Longrightarrow> updateCampaignStatus s now cid = Inr s' \<Longrightarrow> reachable s'"
| r_owner: "reachable s \<Longrightarrow> reachable (s\<lparr> owner := a \<rparr>)"

section \<open>Call sequences\<close>

text \<open>
  An external call with its arguments: the caller, the ether sent with the call (for
  contribute), the block time, and the arguments of the function.
\<close>

datatype call =
    Create address nat string string nat nat string "FundingMode list" nat nat
  | Contribute address nat nat nat
  | StartVoting address nat nat
  | CastVote address nat nat FundingMode
  | Finalize address nat nat
  | Refund address nat
  | Update nat nat

fun exec :: "State \<Rightarrow> call \<Rightarrow> error + State" where
  "exec s (Create sender now nm descr target dl link modes minC maxC) =
     (case createCampaign s sender now nm descr target dl link modes minC maxC of
        Inl e \<Rightarrow> Inl e
      | Inr (s', cid) \<Rightarrow> Inr s')"
| "exec s (Contribute sender v now cid) = contribute s sender v now cid"
| "exec s (StartVoting sender now cid) = startVoting s sender now cid"
| "exec s (CastVote sender now cid m) = vote s sender now cid m"
| "exec s (Finalize sender now cid) = finalizeCampaign s sender now cid"
| "exec s (Refund sender cid) = requestRefund s sender cid"
| "exec s (Update now cid) = updateCampaignStatus s now cid"

text \<open>A sequence of calls stops at the first one that reverts.\<close>

fun run :: "State \<Rightarrow> call list \<Rightarrow> error + State" where
  "run s [] = Inr s"
| "run s (c # cs) = (case exec s c of Inl e \<Rightarrow> Inl e | Inr s' \<Rightarrow> run s' cs)"

text \<open>
  The state that a successful result carries. It names the states of the call sequences
  below; for each of them a lemma shows that the sequence does succeed.
\<close>

definition state_of :: "error + State \<Rightarrow> State" where
  "state_of r = (case r of Inr s \<Rightarrow> s | Inl e \<Rightarrow> init_state 0 (\<lambda>_. False))"

text \<open>
  The contract as deployed by account 9, where every recipient accepts ether.
  Account 1 creates the campaigns below; accounts 2 to 5 are backers.
\<close>

definition no_reject :: "address \<Rightarrow> bool" where
  "no_reject a = False"

definition deployed :: State where
  "deployed = init_state 9 no_reject"

text \<open>A campaign with target 1000 and deadline 100, created at time 10.\<close>

definition create_1000 :: call where
  "create_1000 = Create 1 10 ''camp'' ''d'' 1000 100 ''l'' [Donation, Equity] 1 1000000"

text \<open>One backer pays the whole target: the campaign is Completed.\<close>

definition calls_completed :: "call list" where
  "calls_completed = [create_1000, Contribute 2 1000 11 0]"

definition st_completed :: State where
  "st_completed = state_of (run deployed calls_completed)"

text \<open>
  Target 2000, one contribution of 1000, and a status update at the deadline: the
  campaign is UnderVoting; its voting deadline is 100 + 604800.
\<close>

definition calls_undervoting :: "call list" where
  "calls_undervoting =
     [Create 1 10 ''camp'' ''d'' 2000 100 ''l'' [Donation, Equity] 1 1000000,
      Contribute 2 1000 11 0, Update 100 0]"

definition st_undervoting :: State where
  "st_undervoting = state_of (run deployed calls_undervoting)"

definition st_released :: State where
  "st_released = state_of (finalizeCampaign st_undervoting 7 604901 0)"

text \<open>Four backers reach the target; the creator opens the vote.\<close>

definition calls_quorum :: "call list" where
  "calls_quorum =
     [create_1000, Contribute 2 300 11 0, Contribute 3 300 12 0, Contribute 4 300 13 0,
      Contribute 5 100 14 0, StartVoting 1 20 0]"

definition st_quorum :: State where
  "st_quorum = state_of (run deployed calls_quorum)"

definition st_quorum_voted :: State where
  "st_quorum_voted = state_of (vote st_quorum 2 21 0 Donation)"

text \<open>Backer 2 contributes 300, then 400; backer 3 completes the target.\<close>

definition calls_weight :: "call list" where
  "calls_weight =
     [create_1000, Contribute 2 300 11 0, Contribute 2 400 12 0, Contribute 3 300 13 0,
      StartVoting 1 20 0]"

definition st_weight :: State where
  "st_weight = state_of (run deployed calls_weight)"

text \<open>The same backer contributes twice.\<close>

definition calls_once :: "call list" where
  "calls_once = [create_1000, Contribute 2 1 11 0]"

definition st_once :: State where
  "st_once = state_of (run deployed calls_once)"

definition st_twice :: State where
  "st_twice = state_of (contribute st_once 2 1 12 0)"

text \<open>The deadline passes with 400 of 1000 raised.\<close>

definition calls_missed :: "call list" where
  "calls_missed = [create_1000, Contribute 2 400 50 0]"

definition st_missed :: State where
  "st_missed = state_of (run deployed calls_missed)"

text \<open>
  The state \<open>st_missed\<close> with the campaign set to Failed by hand (no call of the
  contract leads there), to run \<^verbatim>\<open>requestRefund\<close> beyond its status check.
\<close>

definition st_failed :: State where
  "st_failed = set_campaign st_missed 0 ((campaigns st_missed 0)\<lparr> status := Failed \<rparr>)"

definition st_refunded :: State where
  "st_refunded = state_of (requestRefund st_failed 2 0)"

text \<open>
  Target 8: backer 2 contributes 2, 1 and 1, backer 3 contributes 2 and 2. The creator
  opens the vote and backer 2 votes Equity, which closes the vote; the creator opens
  it again and backer 3 votes Donation, which closes it again.
\<close>

definition calls_tie :: "call list" where
  "calls_tie =
     [Create 1 10 ''camp'' ''d'' 8 100 ''l'' [Donation, Equity] 1 10,
      Contribute 2 2 11 0, Contribute 2 1 12 0, Contribute 2 1 13 0,
      Contribute 3 2 14 0, Contribute 3 2 15 0,
      StartVoting 1 20 0, CastVote 2 21 0 Equity,
      StartVoting 1 22 0, CastVote 3 23 0 Donation]"

definition st_tie :: State where
  "st_tie = state_of (run deployed calls_tie)"

text \<open>
  Target 4 in contributions of 1 by four backers, so the quorum is 2. Backer 2 votes
  Reward; then backer 3 votes Debit, which closes the vote.
\<close>

definition calls_fair :: "call list" where
  "calls_fair =
     [Create 1 10 ''camp'' ''d'' 4 100 ''l'' [Debit, Reward] 1 10,
      Contribute 2 1 11 0, Contribute 3 1 12 0, Contribute 4 1 13 0, Contribute 5 1 14 0,
      StartVoting 1 20 0, CastVote 2 21 0 Reward]"

definition st_fair :: State where
  "st_fair = state_of (run deployed calls_fair)"

definition st_fair_voted :: State where
  "st_fair_voted = state_of (vote st_fair 3 22 0 Debit)"

text \<open>A campaign that accepts contributions from 10 to 100.\<close>

definition calls_bounds :: "call list" where
  "calls_bounds = [Create 1 10 ''camp'' ''d'' 1000 100 ''l'' [Donation] 10 100]"

definition st_bounds :: State where
  "st_bounds = state_of (run deployed calls_bounds)"

definition st_below :: State where
  "st_below = state_of (contribute st_bounds 2 9 11 0)"

definition st_above :: State where
  "st_above = state_of (contribute st_bounds 2 101 11 0)"

section \<open>Properties\<close>

text \<open>The sum of the amounts of the entries that are not refunded.\<close>

fun unrefunded_total :: "Contribution list \<Rightarrow> nat" where
  "unrefunded_total [] = 0"
| "unrefunded_total (e # es) = (if refunded e then 0 else amount e) + unrefunded_total es"

text \<open>
  The ledger of a campaign: the backers sequence names everyone who holds entries, and
  the raised amount is the sum of all entries not refunded.
\<close>

definition ledger_total :: "State \<Rightarrow> nat \<Rightarrow> nat" where
  "ledger_total s cid =
     sum (\<lambda>a. unrefunded_total (contributions s cid a)) (set (backers (campaigns s cid)))"

definition ledger_ok :: "State \<Rightarrow> nat \<Rightarrow> bool" where
  "ledger_ok s cid \<longleftrightarrow>
     (\<forall>a. a \<notin> set (backers (campaigns s cid)) \<longrightarrow> contributions s cid a = []) \<and>
     raisedAmount (campaigns s cid) = ledger_total s cid"

text \<open>
  The weight that the entries \<open>bs\<close> of a backers array bring to the mode of index \<open>i\<close>:
  the recorded weight of each entry that has voted for that mode.
\<close>

definition mode_tally ::
  "(address \<Rightarrow> bool) \<Rightarrow> (address \<Rightarrow> FundingMode) \<Rightarrow> (address \<Rightarrow> nat) \<Rightarrow>
   address list \<Rightarrow> nat \<Rightarrow> nat" where
  "mode_tally voted vt wt bs i =
     sum_list (map (\<lambda>b. if voted b \<and> mode_index (vt b) = i then wt b else 0) bs)"

text \<open>The tally of the mode of index \<open>i\<close> in a campaign, over its backers sequence.\<close>

definition campaign_tally :: "State \<Rightarrow> nat \<Rightarrow> nat \<Rightarrow> nat" where
  "campaign_tally s cid i =
     mode_tally (voterHasVoted s cid) (votes s cid) (voteWeight s cid)
       (backers (campaigns s cid)) i"

section \<open>Evaluation and effect lemmas\<close>

lemma list_update_Cons_numeral: "(x # xs)[numeral v := y] = x # xs[numeral v - 1 := y]"
  by (simp add: numeral_eq_Suc)

lemma replicate_numeral: "replicate (numeral v) x = x # replicate (numeral v - 1) x"
  by (simp add: numeral_eq_Suc)

lemmas eval_defs = createCampaign_def contribute_def startVoting_def vote_def endVoting_def
  finalizeCampaign_def requestRefund_def updateCampaignStatus_def transfer_def
  getCampaignBackers_def set_campaign_def set_contributions_def add_contribution_def
  init_state_def zero_campaign_def MAX_UINT256_def VOTING_DURATION_def find_winner_def
  mode_of_index_def backers_loop.simps Let_def list_update_Cons_numeral replicate_numeral
  deployed_def no_reject_def create_1000_def state_of_def

lemma transfer_effect:
  "transfer s to amt = Inr s' \<Longrightarrow>
     s' = s\<lparr> balance := balance s - amt, paid := (paid s)(to := paid s to + amt) \<rparr>"
  by (auto simp: transfer_def split: if_splits)

lemma endVoting_effect:
  "endVoting s cid = Inr s' \<Longrightarrow>
     \<exists>w. s' = set_campaign s cid ((campaigns s cid)\<lparr> currentMode := w, votingEnabled := False \<rparr>)"
  by (auto simp: endVoting_def Let_def split: if_splits sum.splits)


lemma endVoting_fields:
  assumes "endVoting s cid = Inr s'"
  shows "contributions s' = contributions s" "campaignVotes s' = campaignVotes s"
    "campaignIds s' = campaignIds s" "platformFee s' = platformFee s"
    "votes s' = votes s" "voteWeight s' = voteWeight s" "voterHasVoted s' = voterHasVoted s"
    "balance s' = balance s" "paid s' = paid s" "rejects s' = rejects s" "owner s' = owner s"
    "c \<noteq> cid \<Longrightarrow> campaigns s' c = campaigns s c"
    "\<exists>w. campaigns s' cid = (campaigns s cid)\<lparr> currentMode := w, votingEnabled := False \<rparr>"
  using endVoting_effect [OF assms] by (auto simp: set_campaign_def)

lemma vote_fields:
  assumes "vote s sender now cid m = Inr s'"
  shows "contributions s' = contributions s" "campaignVotes s' = campaignVotes s"
    "campaignIds s' = campaignIds s" "platformFee s' = platformFee s"
    "balance s' = balance s" "paid s' = paid s" "rejects s' = rejects s" "owner s' = owner s"
    "votes s' = (votes s)(cid := (votes s cid)(sender := m))"
    "voteWeight s' = (voteWeight s)
        (cid := (voteWeight s cid)(sender := amount (hd (contributions s cid sender))))"
    "voterHasVoted s' = (voterHasVoted s)(cid := (voterHasVoted s cid)(sender := True))"
    "c \<noteq> cid \<Longrightarrow> campaigns s' c = campaigns s c"
    "campaigns s' cid = (campaigns s cid)\<lparr> totalVotes := totalVotes (campaigns s cid)
                     + amount (hd (contributions s cid sender)) \<rparr> \<or>
     (\<exists>w. campaigns s' cid = (campaigns s cid)\<lparr> totalVotes := totalVotes (campaigns s cid)
                     + amount (hd (contributions s cid sender)), currentMode := w,
                     votingEnabled := False \<rparr>)"
  using assms
  by (auto simp: vote_def Let_def set_campaign_def split: if_splits list.splits
           dest!: endVoting_effect)


lemma reachable_basic:
  "reachable s \<Longrightarrow>
     platformFee s = 25 \<and>
     campaignVotes s = (\<lambda>_ _. \<lparr> hasVoted = False, votedForAllOrNothing = False \<rparr>) \<and>
     (\<forall>c. votesForAllOrNothing (campaigns s c) = 0 \<and>
          votesForKeepRaised (campaigns s c) = 0 \<and>
          status (campaigns s c) \<noteq> Failed \<and>
          backersCount (campaigns s c) = length (backers (campaigns s c)))"
proof (induction rule: reachable.induct)
  case (r_init own rej)
  show ?case by (simp add: init_state_def zero_campaign_def)
next
  case (r_create s sender now nm descr target dl link modes minC maxC s' cid)
  then show ?case
    by (auto simp: createCampaign_def set_campaign_def Let_def split: if_splits)
next
  case (r_contribute s sender v now cid s')
  then show ?case
    by (auto simp: contribute_def set_campaign_def set_contributions_def Let_def
             split: if_splits)
next
  case (r_startVoting s sender now cid s')
  then show ?case
    by (auto simp: startVoting_def set_campaign_def Let_def split: if_splits)
next
  case (r_vote s sender now cid m s')
  note f = vote_fields [OF r_vote.hyps(2)]
  have "\<And>c. votesForAllOrNothing (campaigns s' c) = votesForAllOrNothing (campaigns s c) \<and>
          votesForKeepRaised (campaigns s' c) = votesForKeepRaised (campaigns s c) \<and>
          status (campaigns s' c) = status (campaigns s c) \<and>
          backersCount (campaigns s' c) = backersCount (campaigns s c) \<and>
          backers (campaigns s' c) = backers (campaigns s c)"
    subgoal for c using f(12) [of c] f(13) by (cases "c = cid") auto
    done
  with r_vote.IH f(2,4) show ?case by simp
next
  case (r_finalize s sender now cid s')
  then show ?case
    by (auto simp: finalizeCampaign_def set_campaign_def Let_def
             split: if_splits sum.splits dest!: transfer_effect)
next
  case (r_refund s sender cid s')
  then show ?case
    by (auto simp: requestRefund_def Let_def split: if_splits)
next
  case (r_update s now cid s')
  then show ?case
    by (auto simp: updateCampaignStatus_def set_campaign_def Let_def split: if_splits)
next
  case (r_owner s a)
  then show ?case by simp
qed

section \<open>Call sequences lead to reachable states\<close>

lemma exec_reachable: "reachable s \<Longrightarrow> exec s c = Inr s' \<Longrightarrow> reachable s'"
proof (cases c)
  case (Create sender now nm descr target dl link modes minC maxC)
  assume r: "reachable s" and e: "exec s c = Inr s'"
  from e Create obtain cid where
    "createCampaign s sender now nm descr target dl link modes minC maxC = Inr (s', cid)"
    by (auto split: sum.splits)
  with r show ?thesis by (rule r_create)
qed (auto intro: reachable.intros)

lemma run_reachable: "reachable s \<Longrightarrow> run s cs = Inr s' \<Longrightarrow> reachable s'"
proof (induction cs arbitrary: s)
  case Nil
  then show ?case by simp
next
  case (Cons c cs)
  then show ?case by (auto split: sum.splits dest: exec_reachable)
qed

lemma reachable_deployed: "reachable deployed"
  unfolding deployed_def by (rule r_init)

lemma run_quorum: "run deployed calls_quorum = Inr st_quorum"
  unfolding st_quorum_def by (simp add: calls_quorum_def eval_defs)

lemma reachable_quorum: "reachable st_quorum"
  using run_reachable [OF reachable_deployed run_quorum] .

lemma vote_quorum: "vote st_quorum 2 21 0 Donation = Inr st_quorum_voted"
  unfolding st_quorum_voted_def st_quorum_def by (simp add: calls_quorum_def eval_defs)

lemma run_undervoting: "run deployed calls_undervoting = Inr st_undervoting"
  unfolding st_undervoting_def by (simp add: calls_undervoting_def eval_defs)

lemma reachable_undervoting: "reachable st_undervoting"
  using run_reachable [OF reachable_deployed run_undervoting] .

lemma finalize_undervoting: "finalizeCampaign st_undervoting 7 604901 0 = Inr st_released"
  unfolding st_released_def st_undervoting_def by (simp add: calls_undervoting_def eval_defs)

lemma run_once: "run deployed calls_once = Inr st_once"
  unfolding st_once_def by (simp add: calls_once_def eval_defs)

lemma reachable_once: "reachable st_once"
  using run_reachable [OF reachable_deployed run_once] .

lemma contribute_once: "contribute st_once 2 1 12 0 = Inr st_twice"
  unfolding st_twice_def st_once_def by (simp add: calls_once_def eval_defs)


lemma run_missed: "run deployed calls_missed = Inr st_missed"
  unfolding st_missed_def by (simp add: calls_missed_def eval_defs)

lemma run_completed: "run deployed calls_completed = Inr st_completed"
  unfolding st_completed_def by (simp add: calls_completed_def eval_defs)

lemma reachable_completed: "reachable st_completed"
  using run_reachable [OF reachable_deployed run_completed] .

lemma run_weight: "run deployed calls_weight = Inr st_weight"
  unfolding st_weight_def by (simp add: calls_weight_def eval_defs)

lemma run_bounds: "run deployed calls_bounds = Inr st_bounds"
  unfolding st_bounds_def by (simp add: calls_bounds_def eval_defs)

section \<open>The vote views\<close>

text \<open>
  Claim C10. In every reachable state and for every campaign and voter, the views
  \<^verbatim>\<open>getVote\<close> and \<^verbatim>\<open>hasVoted\<close> report no vote: \<^verbatim>\<open>getVote\<close> returns (false, false)
  and \<^verbatim>\<open>hasVoted\<close> returns false for every campaign that exists (for an id that was
  never created its modifier reverts). This holds right after a successful vote of that
  voter too: the vote sets the flag in \<^verbatim>\<open>voterHasVoted\<close>, and the views read
  \<^verbatim>\<open>campaignVotes\<close>, which no operation writes.
\<close>

theorem views_never_report_a_vote:
  "(reachable s \<longrightarrow>
      getVote s cid voter = (False, False) \<and>
      hasVoted_view s cid voter =
        (if cid < campaignIds s then Inr False else Inl (Revert ''Campaign does not exist''))) \<and>
   (reachable t \<longrightarrow> vote t sender now cid' m = Inr t' \<longrightarrow>
      voterHasVoted t' cid' sender \<and>
      getVote t' cid' sender = (False, False) \<and>
      hasVoted_view t' cid' sender \<noteq> Inr True)"
proof (intro conjI impI)
  assume "reachable s"
  from reachable_basic [OF this]
  have cv: "campaignVotes s cid voter = \<lparr> hasVoted = False, votedForAllOrNothing = False \<rparr>"
    by simp
  show "getVote s cid voter = (False, False)"
    by (simp add: getVote_def cv)
  show "hasVoted_view s cid voter =
        (if cid < campaignIds s then Inr False else Inl (Revert ''Campaign does not exist''))"
    by (simp add: hasVoted_view_def cv)
next
  assume r: "reachable t" and v: "vote t sender now cid' m = Inr t'"
  from r v have "reachable t'" by (rule r_vote)
  from reachable_basic [OF this]
  have cv: "campaignVotes t' cid' sender = \<lparr> hasVoted = False, votedForAllOrNothing = False \<rparr>"
    by simp
  show "voterHasVoted t' cid' sender"
    by (simp add: vote_fields(11) [OF v])
  show "getVote t' cid' sender = (False, False)"
    by (simp add: getVote_def cv)
  show "hasVoted_view t' cid' sender \<noteq> Inr True"
    by (simp add: hasVoted_view_def cv)
qed

theorem views_never_report_a_vote_witness:
  "reachable st_quorum \<and> vote st_quorum 2 21 0 Donation = Inr st_quorum_voted \<and>
   voterHasVoted st_quorum_voted 0 2 \<and>
   getVote st_quorum 0 2 = (False, False) \<and>
   getVote st_quorum_voted 0 2 = (False, False) \<and>
   hasVoted_view st_quorum_voted 0 2 \<noteq> Inr True"
  using views_never_report_a_vote
          [where s = st_quorum and cid = 0 and voter = 2 and t = st_quorum and sender = 2
             and now = 21 and cid' = 0 and m = Donation and t' = st_quorum_voted]
        reachable_quorum vote_quorum
  by simp

section \<open>The two ballot counters\<close>

text \<open>
  Claim C9. In every reachable state the fields \<^verbatim>\<open>votesForAllOrNothing\<close> and
  \<^verbatim>\<open>votesForKeepRaised\<close> of every campaign are zero, and a vote leaves them zero.
  So a successful \<^verbatim>\<open>finalizeCampaign\<close> takes the branch that releases the funds
  (the campaign ends Completed with \<^verbatim>\<open>fundsReleased\<close> set), no campaign is ever
  Failed, and \<^verbatim>\<open>requestRefund\<close> reverts in every reachable state, for every caller
  and campaign.
\<close>

theorem ballots_never_counted:
  "reachable s \<Longrightarrow>
     votesForAllOrNothing (campaigns s cid) = 0 \<and>
     votesForKeepRaised (campaigns s cid) = 0 \<and>
     status (campaigns s cid) \<noteq> Failed \<and>
     (vote s voter vnow cid m = Inr sv \<longrightarrow>
        votesForAllOrNothing (campaigns sv cid) = 0 \<and>
        votesForKeepRaised (campaigns sv cid) = 0) \<and>
     (finalizeCampaign s sender now cid = Inr s' \<longrightarrow>
        \<not> isAllOrNothing (campaigns s' cid) \<and>
        fundsReleased (campaigns s' cid) \<and>
        status (campaigns s' cid) = Completed) \<and>
     requestRefund s caller rid =
       (if rid < campaignIds s then Inl (Revert ''Refunds not available'')
        else Inl (Revert ''Campaign does not exist''))"
proof -
  assume r: "reachable s"
  note b = reachable_basic [OF r]
  have z: "votesForAllOrNothing (campaigns s cid) = 0" "votesForKeepRaised (campaigns s cid) = 0"
    "status (campaigns s cid) \<noteq> Failed" "status (campaigns s rid) \<noteq> Failed"
    using b by simp_all
  have v: "votesForAllOrNothing (campaigns sv cid) = 0 \<and> votesForKeepRaised (campaigns sv cid) = 0"
    if "vote s voter vnow cid m = Inr sv"
    using reachable_basic [OF r_vote [OF r that]] by simp
  have f: "\<not> isAllOrNothing (campaigns s' cid) \<and> fundsReleased (campaigns s' cid) \<and>
        status (campaigns s' cid) = Completed"
    if "finalizeCampaign s sender now cid = Inr s'"
    using that z
    by (auto simp: finalizeCampaign_def set_campaign_def Let_def
             split: if_splits sum.splits dest!: transfer_effect)
  have q: "requestRefund s caller rid =
       (if rid < campaignIds s then Inl (Revert ''Refunds not available'')
        else Inl (Revert ''Campaign does not exist''))"
    using z(4) by (simp add: requestRefund_def Let_def)
  from z v f q show ?thesis by blast
qed

theorem ballots_never_counted_witness:
  "reachable st_undervoting \<and>
   finalizeCampaign st_undervoting 7 604901 0 = Inr st_released \<and>
   votesForAllOrNothing (campaigns st_undervoting 0) = 0 \<and>
   votesForKeepRaised (campaigns st_undervoting 0) = 0 \<and>
   fundsReleased (campaigns st_released 0) \<and>
   status (campaigns st_released 0) = Completed \<and>
   requestRefund st_undervoting 2 0 = Inl (Revert ''Refunds not available'')"
proof -
  have "campaignIds st_undervoting = 1"
    unfolding st_undervoting_def by (simp add: calls_undervoting_def eval_defs)
  then show ?thesis
    using ballots_never_counted
          [OF reachable_undervoting, where cid = 0 and sender = 7 and now = 604901
             and s' = st_released and caller = 2 and rid = 0]
        reachable_undervoting finalize_undervoting
    by simp
qed

section \<open>The backers sequence\<close>




section \<open>Opening the vote\<close>




section \<open>The weight of a vote\<close>

text \<open>
  \<^verbatim>\<open>vote\<close> records as weight the amount of the entry at index 0 of the caller's
  contributions, and \<^verbatim>\<open>contribute\<close> writes no recorded weight.
\<close>

lemma vote_records_first_entry:
  "(vote s sender now cid m = Inr s' \<longrightarrow>
      contributions s cid sender \<noteq> [] \<and>
      voteWeight s' cid sender = amount (hd (contributions s cid sender))) \<and>
   (contribute t sender' v now' cid' = Inr t' \<longrightarrow> voteWeight t' = voteWeight t)"
proof (intro conjI impI)
  assume v: "vote s sender now cid m = Inr s'"
  then show "contributions s cid sender \<noteq> []"
    by (auto simp: vote_def Let_def split: if_splits list.splits)
  show "voteWeight s' cid sender = amount (hd (contributions s cid sender))"
    by (simp add: vote_fields(10) [OF v])
next
  assume "contribute t sender' v now' cid' = Inr t'"
  then show "voteWeight t' = voteWeight t"
    by (auto simp: contribute_def set_campaign_def set_contributions_def Let_def
             split: if_splits)
qed

section \<open>The quorum\<close>

text \<open>
  Claim C3, the code at a failing input. Four contributions reach the target of
  campaign 0, so \<^verbatim>\<open>startVoting\<close> sets \<open>requiredVotes = 4 div 2 = 2\<close>. The first
  vote, by account 2 with weight 300, sets \<^verbatim>\<open>totalVotes\<close> to 300, the weight and not
  the number of voters (1), and closes the vote at once although a single voter has
  voted.
\<close>

theorem quorum_closes_on_weight:
  "run deployed calls_quorum = Inr st_quorum \<and>
   backersCount (campaigns st_quorum 0) = 4 \<and>
   requiredVotes (campaigns st_quorum 0) = 2 \<and>
   votingEnabled (campaigns st_quorum 0) \<and>
   totalVotes (campaigns st_quorum 0) = 0 \<and>
   vote st_quorum 2 21 0 Donation = Inr st_quorum_voted \<and>
   totalVotes (campaigns st_quorum_voted 0) = 300 \<and>
   \<not> votingEnabled (campaigns st_quorum_voted 0) \<and>
   \<not> voterHasVoted st_quorum_voted 0 3 \<and>
   \<not> voterHasVoted st_quorum_voted 0 4 \<and>
   \<not> voterHasVoted st_quorum_voted 0 5"
  using run_quorum vote_quorum
  unfolding st_quorum_voted_def st_quorum_def by (simp add: calls_quorum_def eval_defs)

section \<open>The bounds of a contribution\<close>

text \<open>
  Claim C8, the code at a failing input. Campaign 0 is Active before its deadline with
  \<open>minContribution = 10\<close> and \<open>maxContribution = 100\<close>. A contribution of 9 and a
  contribution of 101 both succeed and are added to the raised amount.
\<close>

theorem contribute_outside_bounds:
  "run deployed calls_bounds = Inr st_bounds \<and>
   status (campaigns st_bounds 0) = Active \<and>
   deadline (campaigns st_bounds 0) = 100 \<and>
   minContribution (campaigns st_bounds 0) = 10 \<and>
   maxContribution (campaigns st_bounds 0) = 100 \<and>
   contribute st_bounds 2 9 11 0 = Inr st_below \<and>
   raisedAmount (campaigns st_below 0) = 9 \<and>
   contribute st_bounds 2 101 11 0 = Inr st_above \<and>
   raisedAmount (campaigns st_above 0) = 101"
  using run_bounds
  unfolding st_below_def st_above_def st_bounds_def by (simp add: calls_bounds_def eval_defs)

section \<open>Releasing the funds\<close>

lemma fee_le: "(r::nat) * 25 div 1000 \<le> r"
  by simp

lemma fee_bps: "(r::nat) * 25 div 1000 = r * 250 div 10000"
proof -
  have "r * 250 div 10000 = (10 * (r * 25)) div (10 * 1000)" by (simp add: mult.commute)
  also have "\<dots> = r * 25 div 1000" by (rule div_mult_mult1) simp
  finally show ?thesis by simp
qed

text \<open>
  Claim C2, the code at a failing input. One contribution of 1000 meets the target of
  campaign 0, so contribute sets the status Completed; the funds are not released and
  the contract holds them. The release call of the creator is rejected, before the
  voting deadline and after it: \<^verbatim>\<open>finalizeCampaign\<close>, the only function that pays a
  creator, requires the status UnderVoting. \<^verbatim>\<open>updateCampaignStatus\<close> changes nothing,
  since it moves Active campaigns only.
\<close>

theorem completed_campaign_is_not_released:
  "run deployed calls_completed = Inr st_completed \<and>
   campaignIds st_completed = 1 \<and>
   creator (campaigns st_completed 0) = 1 \<and>
   status (campaigns st_completed 0) = Completed \<and>
   \<not> fundsReleased (campaigns st_completed 0) \<and>
   targetAmount (campaigns st_completed 0) = 1000 \<and>
   raisedAmount (campaigns st_completed 0) = 1000 \<and>
   balance st_completed = 1000 \<and>
   votingDeadline (campaigns st_completed 0) = 604900 \<and>
   finalizeCampaign st_completed 1 12 0 = Inl (Revert ''Voting period not ended'') \<and>
   finalizeCampaign st_completed 1 604901 0 = Inl (Revert ''Campaign not in voting state'') \<and>
   updateCampaignStatus st_completed 604901 0 = Inr st_completed"
  using run_completed
  unfolding st_completed_def by (simp add: calls_completed_def eval_defs)

text \<open>In any state, every \<^verbatim>\<open>finalizeCampaign\<close> call on a Completed campaign is rejected.\<close>

lemma finalize_rejects_completed:
  "status (campaigns s cid) = Completed \<Longrightarrow> \<exists>e. finalizeCampaign s sender now cid = Inl e"
  by (simp add: finalizeCampaign_def Let_def)

text \<open>
  The release branch of \<^verbatim>\<open>finalizeCampaign\<close>, which runs for a campaign that is
  UnderVoting: the fee is \<open>floor(raisedAmount * 25 / 1000)\<close>, which is
  \<open>floor(raisedAmount * 250 / 10000)\<close>, the creator is paid the rest, and in the
  resulting state a further call is rejected. The example pays 975 and 25 out of 1000.
\<close>

lemma finalize_release_branch:
  assumes "reachable s"
    and "cid < campaignIds s"
    and "status (campaigns s cid) = UnderVoting"
    and "\<not> fundsReleased (campaigns s cid)"
    and "votingDeadline (campaigns s cid) < now"
    and "raisedAmount (campaigns s cid) * 25 \<le> MAX_UINT256"
    and "raisedAmount (campaigns s cid) \<le> balance s"
    and "\<not> rejects s (creator (campaigns s cid))"
    and "\<not> rejects s (owner s)"
  shows "\<exists>s'. finalizeCampaign s sender now cid = Inr s' \<and>
           fundsReleased (campaigns s' cid) \<and>
           status (campaigns s' cid) = Completed \<and>
           balance s' = balance s - raisedAmount (campaigns s cid) \<and>
           (\<forall>a. paid s' a = paid s a
                  + (if a = creator (campaigns s cid)
                     then raisedAmount (campaigns s cid)
                          - raisedAmount (campaigns s cid) * 25 div 1000
                     else 0)
                  + (if a = owner s then raisedAmount (campaigns s cid) * 25 div 1000 else 0)) \<and>
           raisedAmount (campaigns s cid) * 25 div 1000
             = raisedAmount (campaigns s cid) * 250 div 10000 \<and>
           (\<forall>sender' now'. finalizeCampaign s' sender' now' cid =
              Inl (Revert (if votingDeadline (campaigns s cid) < now'
                           then ''Campaign not in voting state''
                           else ''Voting period not ended'')))"
proof -
  define c where "c = campaigns s cid"
  define fee where "fee = raisedAmount c * 25 div 1000"
  define s' where
    "s' = s\<lparr> campaigns := (campaigns s)
              (cid := c\<lparr> isAllOrNothing := False, fundsReleased := True, status := Completed \<rparr>),
            balance := balance s - (raisedAmount c - fee) - fee,
            paid := ((paid s)(creator c := paid s (creator c) + (raisedAmount c - fee)))
                      (owner s := ((paid s)(creator c := paid s (creator c) + (raisedAmount c - fee)))
                                     (owner s) + fee) \<rparr>"
  note b = reachable_basic [OF assms(1)]
  have pf: "platformFee s = 25" and z: "votesForAllOrNothing c = 0" "votesForKeepRaised c = 0"
    using b by (simp_all add: c_def)
  have le: "fee \<le> raisedAmount c" unfolding fee_def by (rule fee_le)
  have fin: "finalizeCampaign s sender now cid = Inr s'"
    using assms(2-9) pf z le
    by (simp add: finalizeCampaign_def transfer_def set_campaign_def Let_def
                  c_def [symmetric] fee_def [symmetric] s'_def)
       arith
  have again: "finalizeCampaign s' sender' now' cid =
              Inl (Revert (if votingDeadline c < now'
                           then ''Campaign not in voting state''
                           else ''Voting period not ended''))" for sender' now'
    using assms(2) by (simp add: finalizeCampaign_def Let_def s'_def)
  have bal: "balance s' = balance s - raisedAmount c"
    using le by (simp add: s'_def)
  have pd: "paid s' a = paid s a + (if a = creator c then raisedAmount c - fee else 0)
                  + (if a = owner s then fee else 0)" for a
    by (simp add: s'_def)
  have "fundsReleased (campaigns s' cid)" "status (campaigns s' cid) = Completed"
    by (simp_all add: s'_def)
  with fin again bal pd fee_bps [of "raisedAmount c"] show ?thesis
    unfolding c_def fee_def by blast
qed

lemma finalize_release_branch_example:
  "finalizeCampaign st_undervoting 7 604901 0 = Inr st_released \<and>
   raisedAmount (campaigns st_undervoting 0) = 1000 \<and>
   fundsReleased (campaigns st_released 0) \<and>
   status (campaigns st_released 0) = Completed \<and>
   paid st_released 1 = 975 \<and> paid st_released 9 = 25 \<and>
   finalizeCampaign st_released 1 604902 0 = Inl (Revert ''Campaign not in voting state'')"
proof -
  have f: "campaignIds st_undervoting = 1" "status (campaigns st_undervoting 0) = UnderVoting"
    "\<not> fundsReleased (campaigns st_undervoting 0)"
    "votingDeadline (campaigns st_undervoting 0) = 604900"
    "raisedAmount (campaigns st_undervoting 0) = 1000"
    "balance st_undervoting = 1000"
    "creator (campaigns st_undervoting 0) = 1" "owner st_undervoting = 9"
    "rejects st_undervoting = no_reject" "paid st_undervoting = (\<lambda>_. 0)"
    unfolding st_undervoting_def by (simp_all add: calls_undervoting_def eval_defs)
  have "\<exists>s'. finalizeCampaign st_undervoting 7 604901 0 = Inr s' \<and>
           fundsReleased (campaigns s' 0) \<and>
           status (campaigns s' 0) = Completed \<and>
           balance s' = balance st_undervoting - raisedAmount (campaigns st_undervoting 0) \<and>
           (\<forall>a. paid s' a = paid st_undervoting a
                  + (if a = creator (campaigns st_undervoting 0)
                     then raisedAmount (campaigns st_undervoting 0)
                          - raisedAmount (campaigns st_undervoting 0) * 25 div 1000
                     else 0)
                  + (if a = owner st_undervoting
                     then raisedAmount (campaigns st_undervoting 0) * 25 div 1000 else 0)) \<and>
           raisedAmount (campaigns st_undervoting 0) * 25 div 1000
             = raisedAmount (campaigns st_undervoting 0) * 250 div 10000 \<and>
           (\<forall>sender' now'. finalizeCampaign s' sender' now' 0 =
              Inl (Revert (if votingDeadline (campaigns st_undervoting 0) < now'
                           then ''Campaign not in voting state''
                           else ''Voting period not ended'')))"
    by (rule finalize_release_branch [OF reachable_undervoting])
       (simp_all add: f no_reject_def MAX_UINT256_def)
  then obtain s' where s': "finalizeCampaign st_undervoting 7 604901 0 = Inr s'"
    and p: "fundsReleased (campaigns s' 0)" "status (campaigns s' 0) = Completed"
      "\<forall>a. paid s' a = paid st_undervoting a
                  + (if a = creator (campaigns st_undervoting 0)
                     then raisedAmount (campaigns st_undervoting 0)
                          - raisedAmount (campaigns st_undervoting 0) * 25 div 1000
                     else 0)
                  + (if a = owner st_undervoting
                     then raisedAmount (campaigns st_undervoting 0) * 25 div 1000 else 0)"
      "\<forall>sender' now'. finalizeCampaign s' sender' now' 0 =
              Inl (Revert (if votingDeadline (campaigns st_undervoting 0) < now'
                           then ''Campaign not in voting state''
                           else ''Voting period not ended''))"
    by blast
  from s' finalize_undervoting have e: "s' = st_released" by simp
  have "paid st_released 1 = 975" "paid st_released 9 = 25"
    using p(3) [THEN spec, of 1] p(3) [THEN spec, of 9] by (simp_all add: e f)
  moreover have "finalizeCampaign st_released 1 604902 0 = Inl (Revert ''Campaign not in voting state'')"
    using p(4) [THEN spec, THEN spec, of 1 604902] by (simp add: e f)
  ultimately show ?thesis using p(1,2) f(5) finalize_undervoting by (simp add: e)
qed

section \<open>The ledger of contributions\<close>

lemma unrefunded_total_append:
  "unrefunded_total (es @ fs) = unrefunded_total es + unrefunded_total fs"
  by (induction es) simp_all

lemma unrefunded_total_marked:
  "unrefunded_total (map (\<lambda>e. e\<lparr> refunded := True \<rparr>) es) = 0"
  by (induction es) simp_all

lemma refund_loop_result:
  "refund_loop es r = Inr (es', r') \<Longrightarrow>
     es' = map (\<lambda>e. e\<lparr> refunded := True \<rparr>) es \<and> r' = r + unrefunded_total es"
proof (induction es arbitrary: r es' r')
  case Nil
  then show ?case by simp
next
  case (Cons e es)
  show ?case
  proof (cases "refunded e")
    case True
    with Cons.prems obtain es1 where
      1: "refund_loop es r = Inr (es1, r')" and 2: "es' = e # es1"
      by (auto split: sum.splits)
    from Cons.IH [OF 1] 2 True show ?thesis by simp
  next
    case False
    with Cons.prems obtain es1 where
      1: "refund_loop es (r + amount e) = Inr (es1, r')" and 2: "es' = e\<lparr> refunded := True \<rparr> # es1"
      by (auto split: sum.splits if_splits)
    from Cons.IH [OF 1] 2 False show ?thesis by simp
  qed
qed

lemma sum_bump:
  assumes "finite S"
  shows "sum (f(a := f a + v)) (insert a S) = sum f (insert a S) + (v::nat)"
proof -
  have "sum (f(a := f a + v)) (insert a S) = (f a + v) + sum (f(a := f a + v)) (S - {a})"
    using assms by (simp add: sum.insert_remove)
  also have "sum (f(a := f a + v)) (S - {a}) = sum f (S - {a})"
    by (rule sum.cong) simp_all
  also have "(f a + v) + sum f (S - {a}) = sum f (insert a S) + v"
    using assms by (simp add: sum.insert_remove)
  finally show ?thesis .
qed

lemma sum_clear:
  assumes "finite S" and "a \<in> S"
  shows "sum (f(a := 0)) S = sum f S - (f a :: nat)"
proof -
  have "sum (f(a := 0)) S = (f(a := 0)) a + sum (f(a := 0)) (S - {a})"
    using assms by (rule sum.remove)
  also have "sum (f(a := 0)) (S - {a}) = sum f (S - {a})"
    by (rule sum.cong) simp_all
  finally have 1: "sum (f(a := 0)) S = sum f (S - {a})" by simp
  have "sum f S = f a + sum f (S - {a})"
    using assms by (rule sum.remove)
  with 1 show ?thesis by simp
qed

lemma ledger_ok_cong:
  assumes "contributions s' cid = contributions s cid"
    and "backers (campaigns s' cid) = backers (campaigns s cid)"
    and "raisedAmount (campaigns s' cid) = raisedAmount (campaigns s cid)"
  shows "ledger_ok s' cid = ledger_ok s cid"
  using assms by (simp add: ledger_ok_def ledger_total_def)

text \<open>What contribute does to the ledger of its campaign.\<close>

lemma contribute_fields:
  assumes "contribute s sender v now cid = Inr s'"
  shows "contributions s' = (contributions s)
           (cid := (contributions s cid)
              (sender := contributions s cid sender
                 @ [\<lparr> amount = v, timestamp = now, refunded = False, mode = Donation \<rparr>]))"
    "raisedAmount (campaigns s' cid) = raisedAmount (campaigns s cid) + v"
    "backers (campaigns s' cid) = backers (campaigns s cid) @ [sender]"
    "c \<noteq> cid \<Longrightarrow> campaigns s' c = campaigns s c"
    "0 < v"
  using assms
  by (auto simp: contribute_def set_campaign_def set_contributions_def add_contribution_def
                 Let_def split: if_splits)

lemma contribute_ledger:
  assumes ok: "ledger_ok s c" and co: "contribute s sender v now cid = Inr s'"
  shows "ledger_ok s' c"
proof (cases "c = cid")
  case False
  note f = contribute_fields [OF co]
  from False f(1) f(4) [OF False] have "ledger_ok s' c = ledger_ok s c"
    by (intro ledger_ok_cong) simp_all
  with ok show ?thesis by simp
next
  case True
  note f = contribute_fields [OF co]
  let ?S = "set (backers (campaigns s cid))"
  let ?f = "\<lambda>a. unrefunded_total (contributions s cid a)"
  have g: "(\<lambda>a. unrefunded_total (contributions s' cid a)) = ?f(sender := ?f sender + v)"
    by (rule ext) (simp add: f(1) unrefunded_total_append)
  have S': "set (backers (campaigns s' cid)) = insert sender ?S"
    by (simp add: f(3))
  from ok True have empty: "\<forall>a. a \<notin> ?S \<longrightarrow> contributions s cid a = []"
    and raised: "raisedAmount (campaigns s cid) = sum ?f ?S"
    by (simp_all add: ledger_ok_def ledger_total_def)
  have ins: "sum ?f (insert sender ?S) = sum ?f ?S"
  proof (cases "sender \<in> ?S")
    case True
    then show ?thesis by (simp add: insert_absorb)
  next
    case False
    with empty have "?f sender = 0" by simp
    with False show ?thesis by simp
  qed
  have "ledger_total s' cid = sum ?f ?S + v"
    unfolding ledger_total_def S' g using sum_bump [of ?S ?f sender v] ins by simp
  moreover have "\<forall>a. a \<notin> insert sender ?S \<longrightarrow> contributions s' cid a = []"
    using empty by (simp add: f(1))
  ultimately show ?thesis
    using True raised f(2) S' by (simp add: ledger_ok_def)
qed

text \<open>What a successful requestRefund does.\<close>

lemma requestRefund_fields:
  assumes "requestRefund s sender cid = Inr s'"
  shows "contributions s' = (contributions s)
           (cid := (contributions s cid)
              (sender := map (\<lambda>e. e\<lparr> refunded := True \<rparr>) (contributions s cid sender)))"
    "raisedAmount (campaigns s' cid)
       = raisedAmount (campaigns s cid) - unrefunded_total (contributions s cid sender)"
    "unrefunded_total (contributions s cid sender) \<le> raisedAmount (campaigns s cid)"
    "0 < unrefunded_total (contributions s cid sender)"
    "backers (campaigns s' c) = backers (campaigns s c)"
    "c \<noteq> cid \<Longrightarrow> campaigns s' c = campaigns s c"
    "status (campaigns s cid) = Failed"
  using assms
  by (auto simp: requestRefund_def set_campaign_def set_contributions_def Let_def
           split: if_splits sum.splits prod.splits
           dest!: transfer_effect refund_loop_result)

lemma requestRefund_ledger:
  assumes ok: "ledger_ok s c" and rf: "requestRefund s sender cid = Inr s'"
  shows "ledger_ok s' c"
proof (cases "c = cid")
  case False
  note f = requestRefund_fields [OF rf]
  from False f(1) f(6) [OF False] have "ledger_ok s' c = ledger_ok s c"
    by (intro ledger_ok_cong) simp_all
  with ok show ?thesis by simp
next
  case True
  note f = requestRefund_fields [OF rf]
  let ?S = "set (backers (campaigns s cid))"
  let ?f = "\<lambda>a. unrefunded_total (contributions s cid a)"
  have g: "(\<lambda>a. unrefunded_total (contributions s' cid a)) = ?f(sender := 0)"
    by (rule ext) (simp add: f(1) unrefunded_total_marked)
  from ok True have empty: "\<forall>a. a \<notin> ?S \<longrightarrow> contributions s cid a = []"
    and raised: "raisedAmount (campaigns s cid) = sum ?f ?S"
    by (simp_all add: ledger_ok_def ledger_total_def)
  have "sender \<in> ?S"
  proof (rule ccontr)
    assume "sender \<notin> ?S"
    with empty have "contributions s cid sender = []" by simp
    with f(4) show False by simp
  qed
  then have clear: "sum (?f(sender := 0)) ?S = sum ?f ?S - ?f sender"
    by (intro sum_clear) simp_all
  have "ledger_total s' cid = sum (?f(sender := 0)) ?S"
    unfolding ledger_total_def f(5) g ..
  with clear have "ledger_total s' cid = sum ?f ?S - ?f sender"
    by (simp only:)
  moreover have "\<forall>a. a \<notin> ?S \<longrightarrow> contributions s' cid a = []"
    using empty by (simp add: f(1))
  ultimately show ?thesis
    using True raised f(2) f(5) by (simp add: ledger_ok_def)
qed

lemma frame_ops:
  "createCampaign s sender now nm descr target dl link modes minC maxC = Inr (s', cid) \<Longrightarrow>
     contributions s' = contributions s \<and>
     (\<forall>c. backers (campaigns s' c) = backers (campaigns s c) \<and>
          raisedAmount (campaigns s' c) = raisedAmount (campaigns s c))"
  "startVoting s sender now cid = Inr s' \<Longrightarrow>
     contributions s' = contributions s \<and>
     (\<forall>c. backers (campaigns s' c) = backers (campaigns s c) \<and>
          raisedAmount (campaigns s' c) = raisedAmount (campaigns s c))"
  "finalizeCampaign s sender now cid = Inr s' \<Longrightarrow>
     contributions s' = contributions s \<and>
     (\<forall>c. backers (campaigns s' c) = backers (campaigns s c) \<and>
          raisedAmount (campaigns s' c) = raisedAmount (campaigns s c))"
  "updateCampaignStatus s now cid = Inr s' \<Longrightarrow>
     contributions s' = contributions s \<and>
     (\<forall>c. backers (campaigns s' c) = backers (campaigns s c) \<and>
          raisedAmount (campaigns s' c) = raisedAmount (campaigns s c))"
     apply (auto simp: createCampaign_def set_campaign_def Let_def split: if_splits)[1]
    apply (auto simp: startVoting_def set_campaign_def Let_def split: if_splits)[1]
   apply (auto simp: finalizeCampaign_def set_campaign_def Let_def
               split: if_splits sum.splits dest!: transfer_effect)[1]
  apply (auto simp: updateCampaignStatus_def set_campaign_def Let_def split: if_splits)[1]
  done

lemma frame_vote:
  assumes "vote s sender now cid m = Inr s'"
  shows "contributions s' = contributions s \<and>
     (\<forall>c. backers (campaigns s' c) = backers (campaigns s c) \<and>
          raisedAmount (campaigns s' c) = raisedAmount (campaigns s c) \<and>
          backersCount (campaigns s' c) = backersCount (campaigns s c))"
proof -
  note f = vote_fields [OF assms]
  have "backers (campaigns s' c) = backers (campaigns s c) \<and>
        raisedAmount (campaigns s' c) = raisedAmount (campaigns s c) \<and>
        backersCount (campaigns s' c) = backersCount (campaigns s c)" for c
    using f(12) [of c] f(13) by (cases "c = cid") auto
  with f(1) show ?thesis by simp
qed

lemma reachable_ledger:
  "reachable s \<Longrightarrow>
     ledger_ok s cid \<and> (\<forall>a\<in>set (backers (campaigns s cid)). contributions s cid a \<noteq> [])"
proof (induction arbitrary: cid rule: reachable.induct)
  case (r_init own rej)
  show ?case
    by (simp add: init_state_def zero_campaign_def ledger_ok_def ledger_total_def)
next
  case (r_create s sender now nm descr target dl link modes minC maxC s' cid')
  from frame_ops(1) [OF r_create.hyps(2)] r_create.IH [of cid] show ?case
    by (simp add: ledger_ok_def ledger_total_def)
next
  case (r_contribute s sender v now cid' s')
  note f = contribute_fields [OF r_contribute.hyps(2)]
  have "ledger_ok s' cid"
    using r_contribute.IH [of cid] r_contribute.hyps(2) by (blast intro: contribute_ledger)
  moreover have "\<forall>a\<in>set (backers (campaigns s' cid)). contributions s' cid a \<noteq> []"
    using r_contribute.IH [of cid] f(3) f(4) [of cid]
    by (cases "cid = cid'") (auto simp: f(1))
  ultimately show ?case by simp
next
  case (r_startVoting s sender now cid' s')
  from frame_ops(2) [OF r_startVoting.hyps(2)] r_startVoting.IH [of cid] show ?case
    by (simp add: ledger_ok_def ledger_total_def)
next
  case (r_vote s sender now cid' m s')
  from frame_vote [OF r_vote.hyps(2)] r_vote.IH [of cid] show ?case
    by (simp add: ledger_ok_def ledger_total_def)
next
  case (r_finalize s sender now cid' s')
  from frame_ops(3) [OF r_finalize.hyps(2)] r_finalize.IH [of cid] show ?case
    by (simp add: ledger_ok_def ledger_total_def)
next
  case (r_refund s sender cid' s')
  from reachable_basic [OF r_refund.hyps(1)] requestRefund_fields(7) [OF r_refund.hyps(2)]
  show ?case by simp
next
  case (r_update s now cid' s')
  from frame_ops(4) [OF r_update.hyps(2)] r_update.IH [of cid] show ?case
    by (simp add: ledger_ok_def ledger_total_def)
next
  case (r_owner s a)
  from r_owner.IH [of cid] show ?case
    by (simp add: ledger_ok_def ledger_total_def)
qed

lemma reachable_missed: "reachable st_missed"
  using run_reachable [OF reachable_deployed run_missed] .

lemma reachable_weight: "reachable st_weight"
  using run_reachable [OF reachable_deployed run_weight] .

lemma refund_failed: "requestRefund st_failed 2 0 = Inr st_refunded"
  unfolding st_refunded_def st_failed_def st_missed_def
  by (simp add: calls_missed_def eval_defs)

lemma ledger_ok_failed: "ledger_ok st_failed 0"
proof -
  have "ledger_ok st_failed 0 = ledger_ok st_missed 0"
    by (rule ledger_ok_cong) (simp_all add: st_failed_def set_campaign_def)
  with reachable_ledger [OF reachable_missed, of 0] show ?thesis by simp
qed

text \<open>
  Claim C1. For every campaign and every reachable state, \<^verbatim>\<open>raisedAmount\<close> equals the
  sum of the amounts of the campaign's contribution entries whose refunded flag is
  false (\<open>ledger_ok\<close>: every holder of entries is in the backers sequence, and the sum
  over the backers is the raised amount). A successful contribute preserves this: it
  appends one entry with the amount sent and adds the same amount to
  \<^verbatim>\<open>raisedAmount\<close>. A successful refund preserves it: it marks the caller's entries
  refunded and subtracts exactly their unrefunded total from \<^verbatim>\<open>raisedAmount\<close>.
\<close>

theorem raised_amount_is_unrefunded_sum:
  "(reachable s \<longrightarrow> ledger_ok s cid) \<and>
   (ledger_ok t cid \<longrightarrow> contribute t sender v now cid' = Inr t' \<longrightarrow>
      contributions t' cid' sender =
        contributions t cid' sender
          @ [\<lparr> amount = v, timestamp = now, refunded = False, mode = Donation \<rparr>] \<and>
      raisedAmount (campaigns t' cid') = raisedAmount (campaigns t cid') + v \<and>
      ledger_ok t' cid) \<and>
   (ledger_ok u cid \<longrightarrow> requestRefund u caller cid' = Inr u' \<longrightarrow>
      contributions u' cid' caller =
        map (\<lambda>e. e\<lparr> refunded := True \<rparr>) (contributions u cid' caller) \<and>
      unrefunded_total (contributions u cid' caller) \<le> raisedAmount (campaigns u cid') \<and>
      raisedAmount (campaigns u' cid') =
        raisedAmount (campaigns u cid') - unrefunded_total (contributions u cid' caller) \<and>
      ledger_ok u' cid)"
proof (intro conjI impI)
  assume "reachable s"
  then show "ledger_ok s cid" by (simp add: reachable_ledger)
next
  assume ok: "ledger_ok t cid" and co: "contribute t sender v now cid' = Inr t'"
  note f = contribute_fields [OF co]
  show "contributions t' cid' sender =
        contributions t cid' sender
          @ [\<lparr> amount = v, timestamp = now, refunded = False, mode = Donation \<rparr>]"
    by (simp add: f(1))
  show "raisedAmount (campaigns t' cid') = raisedAmount (campaigns t cid') + v"
    by (rule f(2))
  from ok co show "ledger_ok t' cid" by (rule contribute_ledger)
next
  assume ok: "ledger_ok u cid" and rf: "requestRefund u caller cid' = Inr u'"
  note f = requestRefund_fields [OF rf]
  show "contributions u' cid' caller =
        map (\<lambda>e. e\<lparr> refunded := True \<rparr>) (contributions u cid' caller)"
    by (simp add: f(1))
  show "unrefunded_total (contributions u cid' caller) \<le> raisedAmount (campaigns u cid')"
    by (rule f(3))
  show "raisedAmount (campaigns u' cid') =
        raisedAmount (campaigns u cid') - unrefunded_total (contributions u cid' caller)"
    by (rule f(2))
  from ok rf show "ledger_ok u' cid" by (rule requestRefund_ledger)
qed

theorem raised_amount_is_unrefunded_sum_witness:
  "reachable st_weight \<and> ledger_ok st_weight 0 \<and>
   ledger_ok st_once 0 \<and> contribute st_once 2 1 12 0 = Inr st_twice \<and>
   raisedAmount (campaigns st_twice 0) = raisedAmount (campaigns st_once 0) + 1 \<and>
   ledger_ok st_twice 0 \<and>
   ledger_ok st_failed 0 \<and> requestRefund st_failed 2 0 = Inr st_refunded \<and>
   raisedAmount (campaigns st_refunded 0) =
     raisedAmount (campaigns st_failed 0) - unrefunded_total (contributions st_failed 0 2) \<and>
   ledger_ok st_refunded 0"
proof -
  have o: "ledger_ok st_once 0"
    using reachable_ledger [OF reachable_once, of 0] by simp
  show ?thesis
    using raised_amount_is_unrefunded_sum
            [where s = st_weight and cid = 0 and t = st_once and sender = 2 and v = 1
               and now = 12 and cid' = 0 and t' = st_twice and u = st_failed and caller = 2
               and u' = st_refunded]
          reachable_weight o contribute_once ledger_ok_failed refund_failed
    by blast
qed

section \<open>The winner of a vote\<close>

lemma backers_loop_all:
  assumes "\<forall>b\<in>set bl. hasC b"
  shows "i \<le> length bl \<Longrightarrow> length out = length bl \<Longrightarrow> take i out = take i bl \<Longrightarrow>
         backers_loop hasC bl (length bl) i i out = Inr bl"
proof (induction "length bl - i" arbitrary: i out)
  case 0
  then have "i = length bl" by simp
  with 0 show ?case by (simp add: backers_loop.simps)
next
  case (Suc k)
  then have lt: "i < length bl" by simp
  with assms have h: "hasC (bl ! i)" by simp
  have t: "take (i + 1) (out[i := bl ! i]) = take (i + 1) bl"
    using lt Suc.prems by (simp add: take_Suc_conv_app_nth)
  have "backers_loop hasC bl (length bl) (i + 1) (i + 1) (out[i := bl ! i]) = Inr bl"
    using Suc.hyps(2) lt Suc.prems t by (intro Suc.hyps(1)) simp_all
  with lt h show ?case by (subst backers_loop.simps) simp
qed

lemma getCampaignBackers_all:
  assumes "backersCount (campaigns s cid) = length (backers (campaigns s cid))"
    and "\<forall>b\<in>set (backers (campaigns s cid)). contributions s cid b \<noteq> []"
  shows "getCampaignBackers s cid = Inr (backers (campaigns s cid))"
  using assms backers_loop_all [of "backers (campaigns s cid)"
      "\<lambda>b. length (contributions s cid b) > 0" 0 "replicate (length (backers (campaigns s cid))) 0"]
  by (simp add: getCampaignBackers_def Let_def)

lemma mode_index_less: "mode_index m < 4"
  by (cases m) simp_all

lemma mode_of_index_inverse: "mode_of_index (mode_index m) = m"
  by (cases m) (simp_all add: mode_of_index_def)

lemma mode_index_inverse: "i < 4 \<Longrightarrow> mode_index (mode_of_index i) = i"
  by (auto simp: mode_of_index_def)

lemma mode_index_inject: "mode_index m = mode_index m' \<longleftrightarrow> m = m'"
  by (cases m; cases m') simp_all

lemma mode_tally_Cons:
  "mode_tally voted vt wt (b # bs) i =
     (if voted b \<and> mode_index (vt b) = i then wt b else 0) + mode_tally voted vt wt bs i"
  by (simp add: mode_tally_def)

lemma tally_loop_Inr:
  "tally_loop voted vt wt bs mv0 = Inr mv \<Longrightarrow> length mv0 = 4 \<Longrightarrow>
     length mv = 4 \<and> (\<forall>i<4. mv ! i = mv0 ! i + mode_tally voted vt wt bs i)"
proof (induction bs arbitrary: mv0)
  case Nil
  then show ?case by (simp add: mode_tally_def)
next
  case (Cons b bs)
  show ?case
  proof (cases "voted b")
    case False
    with Cons show ?thesis by (simp add: mode_tally_Cons)
  next
    case True
    let ?k = "mode_index (vt b)"
    from Cons.prems True
    have r: "tally_loop voted vt wt bs (mv0[?k := mv0 ! ?k + wt b]) = Inr mv"
      by (simp add: Let_def split: if_splits)
    from Cons.IH [OF r] Cons.prems(2)
    have "length mv = 4"
      and "\<forall>i<4. mv ! i = (mv0[?k := mv0 ! ?k + wt b]) ! i + mode_tally voted vt wt bs i"
      by simp_all
    with True Cons.prems(2) show ?thesis
      by (auto simp: mode_tally_Cons nth_list_update)
  qed
qed

lemma tally_loop_succeeds:
  "length mv0 = 4 \<Longrightarrow> \<forall>i<4. mv0 ! i + mode_tally voted vt wt bs i \<le> MAX_UINT256 \<Longrightarrow>
     \<exists>mv. tally_loop voted vt wt bs mv0 = Inr mv"
proof (induction bs arbitrary: mv0)
  case Nil
  then show ?case by simp
next
  case (Cons b bs)
  show ?case
  proof (cases "voted b")
    case False
    with Cons show ?thesis by (simp add: mode_tally_Cons)
  next
    case True
    let ?k = "mode_index (vt b)"
    have k: "?k < 4" by (rule mode_index_less)
    from Cons.prems(2) k True have le: "mv0 ! ?k + wt b \<le> MAX_UINT256"
      by (force simp: mode_tally_Cons)
    have "\<forall>i<4. (mv0[?k := mv0 ! ?k + wt b]) ! i + mode_tally voted vt wt bs i \<le> MAX_UINT256"
    proof (intro allI impI)
      fix i :: nat
      assume i: "i < 4"
      with Cons.prems(2) True
      have "mv0 ! i + ((if ?k = i then wt b else 0) + mode_tally voted vt wt bs i) \<le> MAX_UINT256"
        by (simp add: mode_tally_Cons)
      with i Cons.prems(1)
      show "(mv0[?k := mv0 ! ?k + wt b]) ! i + mode_tally voted vt wt bs i \<le> MAX_UINT256"
        by (cases "i = ?k") (simp_all add: nth_list_update)
    qed
    with Cons.IH [of "mv0[?k := mv0 ! ?k + wt b]"] Cons.prems(1)
    obtain mv where "tally_loop voted vt wt bs (mv0[?k := mv0 ! ?k + wt b]) = Inr mv"
      by auto
    with True le show ?thesis by (simp add: Let_def)
  qed
qed

lemma length_4_cases:
  assumes "length (mv :: nat list) = 4"
  obtains a b c d where "mv = [a, b, c, d]"
proof -
  from assms obtain a r1 where 1: "mv = a # r1" "length r1 = 3"
    by (cases mv) simp_all
  then obtain b r2 where 2: "r1 = b # r2" "length r2 = 2" by (cases r1) simp_all
  then obtain c r3 where 3: "r2 = c # r3" "length r3 = 1" by (cases r2) simp_all
  then obtain d where "r3 = [d]" by (cases r3) simp_all
  with 1 2 3 that show thesis by simp
qed

lemma less_4_cases: "(k::nat) < 4 \<longleftrightarrow> k = 0 \<or> k = 1 \<or> k = 2 \<or> k = 3"
  by arith

lemma find_winner_greatest:
  assumes "length mv = 4" and "k < 4"
  shows "mv ! k \<le> mv ! mode_index (find_winner mv)"
proof -
  from assms(1) obtain a b c d where mv: "mv = [a, b, c, d]" by (rule length_4_cases)
  from assms(2) show ?thesis
    unfolding less_4_cases mv
    by (auto simp: find_winner_def mode_of_index_def numeral_3_eq_3 numeral_2_eq_2)
qed

lemma find_winner_first:
  assumes "length mv = 4" and "k < mode_index (find_winner mv)"
  shows "mv ! k < mv ! mode_index (find_winner mv)"
proof -
  from assms(1) obtain a b c d where mv: "mv = [a, b, c, d]" by (rule length_4_cases)
  have "mode_index (find_winner mv) < 4" by (rule mode_index_less)
  with assms(2) have "k < 4" by simp
  with assms(2) show ?thesis
    unfolding less_4_cases mv
    by (auto simp: find_winner_def mode_of_index_def numeral_3_eq_3 numeral_2_eq_2
             split: if_splits)
qed

lemma reachable_amounts:
  "reachable s \<Longrightarrow> \<forall>e\<in>set (contributions s cid a). 0 < amount e"
proof (induction arbitrary: cid a rule: reachable.induct)
  case (r_init own rej)
  show ?case by (simp add: init_state_def)
next
  case (r_create s sender now nm descr target dl link modes minC maxC s' cid')
  from frame_ops(1) [OF r_create.hyps(2)] r_create.IH [of cid a] show ?case by simp
next
  case (r_contribute s sender v now cid' s')
  note f = contribute_fields [OF r_contribute.hyps(2)]
  from r_contribute.IH [of cid a] f(5) show ?case by (auto simp: f(1))
next
  case (r_startVoting s sender now cid' s')
  from frame_ops(2) [OF r_startVoting.hyps(2)] r_startVoting.IH [of cid a] show ?case by simp
next
  case (r_vote s sender now cid' m s')
  from frame_vote [OF r_vote.hyps(2)] r_vote.IH [of cid a] show ?case by simp
next
  case (r_finalize s sender now cid' s')
  from frame_ops(3) [OF r_finalize.hyps(2)] r_finalize.IH [of cid a] show ?case by simp
next
  case (r_refund s sender cid' s')
  from reachable_basic [OF r_refund.hyps(1)] requestRefund_fields(7) [OF r_refund.hyps(2)]
  show ?case by simp
next
  case (r_update s now cid' s')
  from frame_ops(4) [OF r_update.hyps(2)] r_update.IH [of cid a] show ?case by simp
next
  case (r_owner s a')
  from r_owner.IH [of cid a] show ?case by simp
qed

lemma vote_closing:
  assumes v: "vote s sender now cid m = Inr s'"
    and closed: "\<not> votingEnabled (campaigns s' cid)"
  shows "\<exists>s2. endVoting s2 cid = Inr s' \<and> contributions s2 = contributions s \<and>
           backers (campaigns s2 cid) = backers (campaigns s cid) \<and>
           backersCount (campaigns s2 cid) = backersCount (campaigns s cid) \<and>
           voterHasVoted s2 = voterHasVoted s' \<and> votes s2 = votes s' \<and>
           voteWeight s2 = voteWeight s'"
proof -
  let ?c = "campaigns s cid"
  define w where "w = amount (hd (contributions s cid sender))"
  define s2 where
    "s2 = set_campaign
            (s\<lparr> votes := (votes s)(cid := (votes s cid)(sender := m)),
                voteWeight := (voteWeight s)(cid := (voteWeight s cid)(sender := w)),
                voterHasVoted := (voterHasVoted s)(cid := (voterHasVoted s cid)(sender := True)) \<rparr>)
            cid (?c\<lparr> totalVotes := totalVotes ?c + w \<rparr>)"
  from v have en: "votingEnabled ?c"
    by (auto simp: vote_def Let_def split: if_splits)
  from v have "vote s sender now cid m =
      (if requiredVotes ?c \<le> totalVotes ?c + w then endVoting s2 cid else Inr s2)"
    by (auto simp: vote_def Let_def s2_def w_def split: if_splits list.splits)
  with v closed en have e: "endVoting s2 cid = Inr s'"
    by (auto simp: s2_def set_campaign_def split: if_splits)
  note f = endVoting_fields [OF e]
  have "contributions s2 = contributions s" "backers (campaigns s2 cid) = backers ?c"
    "backersCount (campaigns s2 cid) = backersCount ?c"
    by (simp_all add: s2_def set_campaign_def)
  with e f(5,6,7) show ?thesis by auto
qed

lemma endVoting_tally:
  assumes e: "endVoting s cid = Inr s'"
    and n: "backersCount (campaigns s cid) = length (backers (campaigns s cid))"
    and h: "\<forall>b\<in>set (backers (campaigns s cid)). contributions s cid b \<noteq> []"
  shows "\<exists>mv. length mv = 4 \<and> (\<forall>i<4. mv ! i = campaign_tally s cid i) \<and>
           currentMode (campaigns s' cid) = find_winner mv"
proof -
  note g = getCampaignBackers_all [OF n h]
  from e g obtain mv where
    t: "tally_loop (voterHasVoted s cid) (votes s cid) (voteWeight s cid)
          (backers (campaigns s cid)) [0, 0, 0, 0] = Inr mv"
    and w: "currentMode (campaigns s' cid) = find_winner mv"
    by (auto simp: endVoting_def Let_def set_campaign_def split: if_splits sum.splits)
  from tally_loop_Inr [OF t] have "length mv = 4" "\<forall>i<4. mv ! i = campaign_tally s cid i"
    by (auto simp: campaign_tally_def less_4_cases)
  with w show ?thesis by blast
qed

lemma sum_list_map_mset:
  "sum_list (map f xs) = sum_mset (image_mset f (mset xs))" for f :: "'a \<Rightarrow> nat"
  by (induction xs) simp_all

lemma mode_tally_mset:
  "mset bs = mset bs' \<Longrightarrow> mode_tally voted vt wt bs i = mode_tally voted vt wt bs' i"
  unfolding mode_tally_def sum_list_map_mset by (rule arg_cong)

lemma mode_tally_two:
  assumes "a \<noteq> b" and "voted a" and "voted b"
  shows "\<forall>x\<in>set bs. voted x \<longrightarrow> x = a \<or> x = b \<Longrightarrow>
     mode_tally voted vt wt bs i =
       count_list bs a * (if mode_index (vt a) = i then wt a else 0)
       + count_list bs b * (if mode_index (vt b) = i then wt b else 0)"
  using assms by (induction bs) (auto simp: mode_tally_Cons mode_tally_def)

lemma run_tie: "run deployed calls_tie = Inr st_tie"
  unfolding st_tie_def by (simp add: calls_tie_def eval_defs)

lemma run_fair: "run deployed calls_fair = Inr st_fair"
  unfolding st_fair_def by (simp add: calls_fair_def eval_defs)

lemma reachable_fair: "reachable st_fair"
  using run_reachable [OF reachable_deployed run_fair] .

lemma vote_fair: "vote st_fair 3 22 0 Debit = Inr st_fair_voted"
  unfolding st_fair_voted_def st_fair_def by (simp add: calls_fair_def eval_defs)

lemma tie_winner:
  assumes great: "\<forall>k<4. T k \<le> T (mode_index w)"
    and first: "\<forall>k<mode_index w. T k < T (mode_index w)"
    and t1: "T (mode_index m1) = x" and t2: "T (mode_index m2) = x" and pos: "0 < (x::nat)"
    and others: "\<forall>k<4. k \<noteq> mode_index m1 \<and> k \<noteq> mode_index m2 \<longrightarrow> T k = 0"
  shows "w = (if mode_index m1 < mode_index m2 then m1 else m2)"
proof -
  have w4: "mode_index w < 4" and m14: "mode_index m1 < 4" and m24: "mode_index m2 < 4"
    by (rule mode_index_less)+
  from great m14 t1 have ge: "x \<le> T (mode_index w)" by auto
  have "mode_index w = mode_index m1 \<or> mode_index w = mode_index m2"
  proof (rule ccontr)
    assume "\<not> ?thesis"
    with others w4 have "T (mode_index w) = 0" by simp
    with ge pos show False by simp
  qed
  then have tw: "T (mode_index w) = x" using t1 t2 by auto
  have n1: "\<not> mode_index m1 < mode_index w"
    using first t1 tw by auto
  have n2: "\<not> mode_index m2 < mode_index w"
    using first t2 tw by auto
  from \<open>mode_index w = mode_index m1 \<or> mode_index w = mode_index m2\<close> n1 n2
  have "mode_index w = mode_index (if mode_index m1 < mode_index m2 then m1 else m2)"
    by auto
  then show ?thesis by (simp only: mode_index_inject)
qed

text \<open>
  Claim C7, the code at a failing input. In campaign 0 backers 2 and 3 are the only
  voters and their recorded weights are equal, 2 and 2; backer 2 votes Equity and
  backer 3 votes Donation, the mode of lower index. The tally loop of \<^verbatim>\<open>endVoting\<close>
  adds the weight of a voter once for each entry of the voter in the backers array:
  backer 2 holds three entries and backer 3 two, so the tallies are 6 for Equity and 4
  for Donation, and Equity wins.
\<close>

theorem tie_goes_to_higher_mode:
  "run deployed calls_tie = Inr st_tie \<and>
   backers (campaigns st_tie 0) = [2, 2, 2, 3, 3] \<and>
   voterHasVoted st_tie 0 2 \<and> voterHasVoted st_tie 0 3 \<and>
   voteWeight st_tie 0 2 = 2 \<and> voteWeight st_tie 0 3 = 2 \<and>
   votes st_tie 0 2 = Equity \<and> votes st_tie 0 3 = Donation \<and>
   mode_index Donation < mode_index Equity \<and>
   campaign_tally st_tie 0 (mode_index Donation) = 4 \<and>
   campaign_tally st_tie 0 (mode_index Equity) = 6 \<and>
   \<not> votingEnabled (campaigns st_tie 0) \<and>
   currentMode (campaigns st_tie 0) = Equity"
  using run_tie
  unfolding st_tie_def
  by (simp add: calls_tie_def eval_defs campaign_tally_def mode_tally_def)

text \<open>
  What a vote that closes the voting computes, in a reachable state: the winner is the
  mode of least index among the modes of greatest tally, where \<open>campaign_tally\<close> is the
  tally of the loop above, taken over the entries of the backers sequence; the tally
  does not depend on the order of the entries. When the two voters are the only ones
  and each holds one entry, equal weights for different modes give the mode of lower
  index.
\<close>

lemma closing_vote_winner:
  assumes r: "reachable s"
    and v: "vote s sender now cid m = Inr s'"
    and closed: "\<not> votingEnabled (campaigns s' cid)"
  shows "(\<forall>k<4. campaign_tally s' cid k
                  \<le> campaign_tally s' cid (mode_index (currentMode (campaigns s' cid)))) \<and>
         (\<forall>k<mode_index (currentMode (campaigns s' cid)).
             campaign_tally s' cid k
               < campaign_tally s' cid (mode_index (currentMode (campaigns s' cid)))) \<and>
         (mset bs = mset (backers (campaigns s' cid)) \<longrightarrow>
            mode_tally (voterHasVoted s' cid) (votes s' cid) (voteWeight s' cid) bs i
              = campaign_tally s' cid i) \<and>
         (other \<noteq> sender \<and> voterHasVoted s cid other \<and>
          (\<forall>x\<in>set (backers (campaigns s cid)). voterHasVoted s cid x \<longrightarrow> x = other) \<and>
          count_list (backers (campaigns s cid)) other = 1 \<and>
          count_list (backers (campaigns s cid)) sender = 1 \<and>
          voteWeight s cid other = amount (hd (contributions s cid sender)) \<and>
          votes s cid other \<noteq> m \<longrightarrow>
            currentMode (campaigns s' cid) =
              (if mode_index (votes s cid other) < mode_index m then votes s cid other else m))"
proof -
  let ?w = "currentMode (campaigns s' cid)"
  let ?T = "campaign_tally s' cid"
  from vote_closing [OF v closed] obtain s2 where
    e: "endVoting s2 cid = Inr s'" and c2: "contributions s2 = contributions s"
    and b2: "backers (campaigns s2 cid) = backers (campaigns s cid)"
    and n2: "backersCount (campaigns s2 cid) = backersCount (campaigns s cid)"
    and m2: "voterHasVoted s2 = voterHasVoted s'" "votes s2 = votes s'"
            "voteWeight s2 = voteWeight s'"
    by blast
  note f = endVoting_fields [OF e]
  from f(13) b2 have b': "backers (campaigns s' cid) = backers (campaigns s cid)" by auto
  have T2: "campaign_tally s2 cid = ?T"
    by (rule ext) (simp add: campaign_tally_def m2 b2 b')
  from reachable_basic [OF r] n2 b2
  have len: "backersCount (campaigns s2 cid) = length (backers (campaigns s2 cid))" by simp
  from reachable_ledger [OF r, of cid] c2 b2
  have ent: "\<forall>b\<in>set (backers (campaigns s2 cid)). contributions s2 cid b \<noteq> []" by simp
  from endVoting_tally [OF e len ent] T2 obtain mv where
    mv: "length mv = 4" "\<forall>i<4. mv ! i = ?T i" "?w = find_winner mv"
    by auto
  have w4: "mode_index ?w < 4" by (rule mode_index_less)
  have great: "\<forall>k<4. ?T k \<le> ?T (mode_index ?w)"
  proof (intro allI impI)
    fix k :: nat
    assume k: "k < 4"
    from find_winner_greatest [OF mv(1) k] mv(2,3) k w4 show "?T k \<le> ?T (mode_index ?w)"
      by simp
  qed
  have first: "\<forall>k<mode_index ?w. ?T k < ?T (mode_index ?w)"
  proof (intro allI impI)
    fix k :: nat
    assume k: "k < mode_index ?w"
    with w4 have k4: "k < 4" by simp
    from k have "k < mode_index (find_winner mv)" by (simp add: mv(3))
    from find_winner_first [OF mv(1) this] mv(2,3) k4 w4 show "?T k < ?T (mode_index ?w)"
      by simp
  qed
  have perm: "mset bs = mset (backers (campaigns s' cid)) \<longrightarrow>
        mode_tally (voterHasVoted s' cid) (votes s' cid) (voteWeight s' cid) bs i = ?T i"
    unfolding campaign_tally_def by (blast intro: mode_tally_mset)
  have tie: "?w = (if mode_index (votes s cid other) < mode_index m then votes s cid other else m)"
    if o: "other \<noteq> sender" "voterHasVoted s cid other"
      "\<forall>x\<in>set (backers (campaigns s cid)). voterHasVoted s cid x \<longrightarrow> x = other"
      "count_list (backers (campaigns s cid)) other = 1"
      "count_list (backers (campaigns s cid)) sender = 1"
      "voteWeight s cid other = amount (hd (contributions s cid sender))"
      "votes s cid other \<noteq> m"
  proof -
    note g = vote_fields [OF v]
    let ?x = "amount (hd (contributions s cid sender))"
    from v have ne: "contributions s cid sender \<noteq> []"
      by (auto simp: vote_def Let_def split: if_splits list.splits)
    with reachable_amounts [OF r, of cid sender] have pos: "0 < ?x" by simp
    have vo: "voterHasVoted s' cid other" "voterHasVoted s' cid sender"
      using o(1,2) by (simp_all add: g(11))
    have only: "\<forall>x\<in>set (backers (campaigns s' cid)).
                  voterHasVoted s' cid x \<longrightarrow> x = other \<or> x = sender"
      using o(3) by (auto simp: g(11) b')
    have wt: "voteWeight s' cid other = ?x" "voteWeight s' cid sender = ?x"
      using o(1,6) by (simp_all add: g(10))
    have vt: "votes s' cid other = votes s cid other" "votes s' cid sender = m"
      using o(1) by (simp_all add: g(9))
    have T: "?T k = (if mode_index (votes s cid other) = k then ?x else 0)
                  + (if mode_index m = k then ?x else 0)" for k
      unfolding campaign_tally_def
      using mode_tally_two [OF o(1) vo only, of "votes s' cid" "voteWeight s' cid" k]
      by (simp add: b' o(4,5) wt vt)
    from o(7) have neq: "mode_index (votes s cid other) \<noteq> mode_index m"
      by (simp add: mode_index_inject)
    show ?thesis
    proof (rule tie_winner [OF great first _ _ pos])
      show "?T (mode_index (votes s cid other)) = ?x" using neq by (simp add: T)
      show "?T (mode_index m) = ?x" using neq by (simp add: T)
      show "\<forall>k<4. k \<noteq> mode_index (votes s cid other) \<and> k \<noteq> mode_index m \<longrightarrow> ?T k = 0"
        by (auto simp: T)
    qed
  qed
  from great first perm tie show ?thesis by blast
qed

lemma closing_vote_winner_example:
  "reachable st_fair \<and> vote st_fair 3 22 0 Debit = Inr st_fair_voted \<and>
   \<not> votingEnabled (campaigns st_fair_voted 0) \<and>
   backers (campaigns st_fair 0) = [2, 3, 4, 5] \<and>
   voterHasVoted st_fair 0 2 \<and> votes st_fair 0 2 = Reward \<and>
   voteWeight st_fair 0 2 = amount (hd (contributions st_fair 0 3)) \<and>
   mset [5, 4, 3, 2] = mset (backers (campaigns st_fair_voted 0)) \<and>
   mode_tally (voterHasVoted st_fair_voted 0) (votes st_fair_voted 0)
       (voteWeight st_fair_voted 0) [5, 4, 3, 2] 1
     = campaign_tally st_fair_voted 0 1 \<and>
   campaign_tally st_fair_voted 0 0
     < campaign_tally st_fair_voted 0 (mode_index (currentMode (campaigns st_fair_voted 0))) \<and>
   campaign_tally st_fair_voted 0 2
     \<le> campaign_tally st_fair_voted 0 (mode_index (currentMode (campaigns st_fair_voted 0))) \<and>
   currentMode (campaigns st_fair_voted 0) = Debit"
proof -
  have a: "\<not> votingEnabled (campaigns st_fair_voted 0)"
    "backers (campaigns st_fair_voted 0) = [2, 3, 4, 5]"
    unfolding st_fair_voted_def st_fair_def by (simp_all add: calls_fair_def eval_defs)
  have b: "backers (campaigns st_fair 0) = [2, 3, 4, 5]"
    "voterHasVoted st_fair 0 2" "\<not> voterHasVoted st_fair 0 3"
    "\<not> voterHasVoted st_fair 0 4" "\<not> voterHasVoted st_fair 0 5"
    "votes st_fair 0 2 = Reward"
    "voteWeight st_fair 0 2 = amount (hd (contributions st_fair 0 3))"
    unfolding st_fair_def by (simp_all add: calls_fair_def eval_defs)
  have p: "mset [5, 4, 3, 2 :: address] = mset (backers (campaigns st_fair_voted 0))"
    by (simp add: a(2))
  note t = closing_vote_winner
             [OF reachable_fair vote_fair a(1), where other = 2 and bs = "[5, 4, 3, 2]" and i = 1]
  have hyp: "(2::address) \<noteq> 3 \<and> voterHasVoted st_fair 0 2 \<and>
          (\<forall>x\<in>set (backers (campaigns st_fair 0)). voterHasVoted st_fair 0 x \<longrightarrow> x = 2) \<and>
          count_list (backers (campaigns st_fair 0)) 2 = 1 \<and>
          count_list (backers (campaigns st_fair 0)) 3 = 1 \<and>
          voteWeight st_fair 0 2 = amount (hd (contributions st_fair 0 3)) \<and>
          votes st_fair 0 2 \<noteq> Debit"
    using b(2-7) by (simp add: b(1))
  from t hyp have w: "currentMode (campaigns st_fair_voted 0) = Debit"
    by (simp add: b(6))
  from t p have tl: "mode_tally (voterHasVoted st_fair_voted 0) (votes st_fair_voted 0)
       (voteWeight st_fair_voted 0) [5, 4, 3, 2] 1 = campaign_tally st_fair_voted 0 1"
    by blast
  from t have g: "campaign_tally st_fair_voted 0 2
     \<le> campaign_tally st_fair_voted 0 (mode_index (currentMode (campaigns st_fair_voted 0)))"
    by simp
  from t w have f: "campaign_tally st_fair_voted 0 0
     < campaign_tally st_fair_voted 0 (mode_index (currentMode (campaigns st_fair_voted 0)))"
    by simp
  from reachable_fair vote_fair a(1) b(1,2,6,7) p tl f g w show ?thesis by blast
qed

end
